theory Spec2Isabelle
  imports Complex_Main "HOL-Library.Log_Nat"
begin

section \<open>The Litetouch serial protocol engine\<close>

text \<open>
  A shallow embedding of \<^verbatim>\<open>commandQueue.ts\<close> (class CommandQueue) and
  \<^verbatim>\<open>litetouchConnection.ts\<close> (class LitetouchConnection).

  Conventions of the embedding:
  \<^item> A JavaScript string is a \<open>string\<close> whose characters are the code units below 256
    (the protocol is ASCII).
  \<^item> The level given to \<open>setDimmer\<close> is a JavaScript number: NaN, an infinity or a finite
    double (type \<open>jsnum\<close>), and the two arithmetic operations on it round as doubles do.
    \<open>Math.round\<close> is \<open>round\<close> (half towards plus infinity), which is exact. The decoder of
    responses works on the integers 0..999 only; there its quotient and product are computed
    exactly, in the reals, and the double-precision computation rounds to the same integer
    for each of these values.
  \<^item> A promise is identified by a natural number, and its state is kept in a table. The
    pair \<open>resolve\<close>/\<open>reject\<close> stored in a queued command is the number of the promise
    that \<open>enqueue\<close> returned (field \<open>handle\<close>); the promise that \<open>processCommand\<close>
    returns for that command has the same number in the table \<open>exchange\<close>. Settling a promise
    that is already settled changes nothing, as in JavaScript.
  \<^item> One event is one turn of the event loop: the callback runs to completion, and the
    reactions of the promises it settled (the rest of \<open>processNext\<close> behind its
    \<open>await\<close>) run before the next event. The field \<open>timestamp\<close> of a queued command
    is never read and is left out.
\<close>

subsection \<open>Data\<close>

datatype CommandPriority = HIGH | NORMAL

datatype error = Error string

datatype 'a promise = Pending | Resolved 'a | Rejected error

record QueuedCommand =
  command :: string
  priority :: CommandPriority
  handle :: nat

record LoadStatus =
  address :: string
  level :: int
  raw :: int

record PendingResponse =
  exch :: nat
  pending_address :: "string option"

record LitetouchConfig =
  pollingInterval :: nat
  commandTimeout :: nat

record conn =
  queue :: "QueuedCommand list"
  processing :: bool
  handles :: "nat \<Rightarrow> string option promise"
  nextHandle :: nat
  immediates :: nat
  portOpen :: bool
  pendingResponse :: "PendingResponse option"
  exchange :: "nat \<Rightarrow> string option promise"
  timers :: "nat \<Rightarrow> nat option"
  writeCallbacks :: "nat set"
  wire :: "QueuedCommand list"
  emitted :: "LoadStatus list"
  pollingTimer :: "nat option"
  loadAddresses :: "string list"
  currentPollingIndex :: nat

text \<open>
  \<open>immediates\<close> counts the \<open>setImmediate\<close> callbacks not yet run, \<open>timers\<close> holds the
  armed command timeouts (by command, with their delay), \<open>writeCallbacks\<close> the writes whose
  callback the port has not yet called, \<open>wire\<close> the commands written to the port, newest
  first (each followed by a carriage return), and \<open>emitted\<close> the \<open>loadStatus\<close> events.
\<close>

definition init :: conn where
  "init = \<lparr>queue = [], processing = False, handles = (\<lambda>_. Pending), nextHandle = 0,
     immediates = 0, portOpen = False, pendingResponse = None, exchange = (\<lambda>_. Pending),
     timers = (\<lambda>_. None), writeCallbacks = {}, wire = [], emitted = [],
     pollingTimer = None, loadAddresses = [], currentPollingIndex = 0\<rparr>"

subsection \<open>Numbers\<close>

text \<open>
  A JavaScript number is NaN, an infinity, or a finite double, given by its value: every
  double is a rational. \<open>fl\<close> rounds a rational to the nearest double, ties to the even
  significand, as IEEE 754 binary64 division and multiplication do: the unit in the last place
  of \<open>x\<close> is \<open>2 powi ulp_exp x\<close>, 52 binary places below the leading bit of \<open>x\<close>, and
  never below \<open>2 powi (- 1074)\<close>, the spacing of the subnormal numbers. Overflow to infinity
  is not modelled: no quotient or product formed here exceeds 250.
\<close>

datatype jsnum = NaN | PosInf | NegInf | Num rat

text \<open>For \<open>x > 0\<close>, the exponent of the leading bit: \<open>2 powi ilog2 x \<le> x < 2 powi (ilog2 x + 1)\<close>.\<close>

definition ilog2 :: "rat \<Rightarrow> int" where
  "ilog2 x = (case quotient_of x of (a, b) \<Rightarrow>
     let k = bitlen a - bitlen b in if 2 powi k \<le> x then k else k - 1)"

definition roundTiesToEven :: "rat \<Rightarrow> int" where
  "roundTiesToEven z =
     (let f = \<lfloor>z\<rfloor>; d = z - of_int f
      in if d < 1/2 then f else if 1/2 < d then f + 1 else if even f then f else f + 1)"

definition ulp_exp :: "rat \<Rightarrow> int" where
  "ulp_exp x = max (ilog2 \<bar>x\<bar>) (- 1022) - 52"

definition fl :: "rat \<Rightarrow> rat" where
  "fl x = (if x = 0 then 0
     else of_int (roundTiesToEven (x / 2 powi ulp_exp x)) * 2 powi ulp_exp x)"

subsection \<open>Strings\<close>

definition is_space :: "char \<Rightarrow> bool" where
  "is_space c = (of_char c \<in> {9, 10, 11, 12, 13, 32, 160 :: nat})"

definition is_digit :: "char \<Rightarrow> bool" where
  "is_digit c = (48 \<le> (of_char c :: nat) \<and> (of_char c :: nat) \<le> 57)"

definition trim :: "string \<Rightarrow> string" where
  "trim s = rev (dropWhile is_space (rev (dropWhile is_space s)))"

definition digit_char :: "nat \<Rightarrow> char" where
  "digit_char d = char_of (48 + d)"

definition digit_val :: "char \<Rightarrow> int" where
  "digit_val c = int (of_char c) - 48"

fun digits :: "nat \<Rightarrow> string" where
  "digits n = (if n < 10 then [digit_char n] else digits (n div 10) @ [digit_char (n mod 10)])"

declare digits.simps [simp del]

definition toString :: "int \<Rightarrow> string" where
  "toString n = (if n < 0 then CHR ''-'' # digits (nat (- n)) else digits (nat n))"

definition padStart :: "nat \<Rightarrow> char \<Rightarrow> string \<Rightarrow> string" where
  "padStart n c s = replicate (n - length s) c @ s"

definition parseInt :: "string \<Rightarrow> int" where
  "parseInt ds = foldl (\<lambda>acc c. 10 * acc + digit_val c) 0 ds"

text \<open>The match of \<^verbatim>\<open>/^18\s+(\d{3})$/\<close>: the captured group, if the string matches.\<close>

definition matchStatus :: "string \<Rightarrow> string option" where
  "matchStatus response =
     (case response of
        c1 # c2 # rest \<Rightarrow>
          if c1 = CHR ''1'' \<and> c2 = CHR ''8'' \<and> takeWhile is_space rest \<noteq> []
             \<and> length (dropWhile is_space rest) = 3 \<and> list_all is_digit (dropWhile is_space rest)
          then Some (dropWhile is_space rest) else None
      | _ \<Rightarrow> None)"

text \<open>
  The match of \<^verbatim>\<open>/^\s*18\s+(\d{1,2}-\d{1,2})/\<close>. Each \<^verbatim>\<open>\d{1,2}\<close> is greedy; giving
  back a digit never helps, since the character that follows would be that digit.
\<close>

definition outputDigits :: "string \<Rightarrow> string option" where
  "outputDigits r =
     (case r of
        e1 # e2 # _ \<Rightarrow>
          if is_digit e1 \<and> is_digit e2 then Some [e1, e2]
          else if is_digit e1 then Some [e1] else None
      | [e1] \<Rightarrow> if is_digit e1 then Some [e1] else None
      | [] \<Rightarrow> None)"

definition moduleOutput :: "string \<Rightarrow> string option" where
  "moduleOutput r =
     (case r of
        d1 # d2 # d3 # r' \<Rightarrow>
          if is_digit d1 \<and> is_digit d2 \<and> d3 = CHR ''-'' then
            map_option (\<lambda>out. [d1, d2] @ CHR ''-'' # out) (outputDigits r')
          else if is_digit d1 \<and> d2 = CHR ''-'' then
            map_option (\<lambda>out. [d1] @ CHR ''-'' # out) (outputDigits (d3 # r'))
          else None
      | _ \<Rightarrow> None)"

definition queryMatch :: "string \<Rightarrow> string option" where
  "queryMatch cmd =
     (case dropWhile is_space cmd of
        c1 # c2 # rest \<Rightarrow>
          if c1 = CHR ''1'' \<and> c2 = CHR ''8'' \<and> takeWhile is_space rest \<noteq> []
          then moduleOutput (dropWhile is_space rest) else None
      | _ \<Rightarrow> None)"

subsection \<open>CommandQueue\<close>

fun findIndex :: "('a \<Rightarrow> bool) \<Rightarrow> 'a list \<Rightarrow> nat option" where
  "findIndex P [] = None"
| "findIndex P (x # xs) = (if P x then Some 0 else map_option Suc (findIndex P xs))"

text \<open>\<open>promise.resolve\<close> and \<open>promise.reject\<close>: only a pending promise changes.\<close>

definition settle :: "(nat \<Rightarrow> 'a promise) \<Rightarrow> nat \<Rightarrow> 'a promise \<Rightarrow> (nat \<Rightarrow> 'a promise)" where
  "settle tab i outcome = (if tab i = Pending then tab(i := outcome) else tab)"

text \<open>
  The rest of \<open>processNext\<close> behind \<open>await this.processCallback(cmd)\<close>: the \<open>try\<close>
  resolves the command's handle, the \<open>catch\<close> rejects it, the \<open>finally\<close> clears the flag
  and schedules the next run.
\<close>

definition processNext_resume :: "nat \<Rightarrow> string option promise \<Rightarrow> conn \<Rightarrow> conn" where
  "processNext_resume i outcome s =
     s\<lparr>handles := settle (handles s) i outcome,
       processing := False,
       immediates := (if queue s \<noteq> [] then Suc (immediates s) else immediates s)\<rparr>"

text \<open>
  Settling the promise returned by \<open>processCommand\<close> for command \<open>i\<close>: if it is still
  pending, it takes the outcome and the suspended \<open>processNext\<close> resumes.
\<close>

definition settleExchange :: "nat \<Rightarrow> string option promise \<Rightarrow> conn \<Rightarrow> conn" where
  "settleExchange i outcome s =
     (if exchange s i = Pending
      then processNext_resume i outcome (s\<lparr>exchange := (exchange s)(i := outcome)\<rparr>)
      else s)"

text \<open>\<open>LitetouchConnection.processCommand\<close>, the processor registered with the queue.\<close>

definition processCommand :: "LitetouchConfig \<Rightarrow> QueuedCommand \<Rightarrow> conn \<Rightarrow> conn" where
  "processCommand cfg cmd s =
     (if \<not> portOpen s then settleExchange (handle cmd) (Rejected (Error ''Serial port not open'')) s
      else
        s\<lparr>timers := (timers s)(handle cmd \<mapsto> commandTimeout cfg),
          pendingResponse :=
            Some \<lparr>exch = handle cmd, pending_address = queryMatch (command cmd)\<rparr>,
          wire := cmd # wire s,
          writeCallbacks := insert (handle cmd) (writeCallbacks s)\<rparr>)"

text \<open>
  \<open>CommandQueue.processNext\<close> up to its \<open>await\<close>. The processor is registered in the
  constructor of the connection, so \<open>processCallback\<close> is never null.
\<close>

definition processNext :: "LitetouchConfig \<Rightarrow> conn \<Rightarrow> conn" where
  "processNext cfg s =
     (case queue s of
        [] \<Rightarrow> s
      | cmd # rest \<Rightarrow>
          if processing s then s
          else processCommand cfg cmd (s\<lparr>processing := True, queue := rest\<rparr>))"

definition enqueue :: "LitetouchConfig \<Rightarrow> string \<Rightarrow> CommandPriority \<Rightarrow> conn \<Rightarrow> conn" where
  "enqueue cfg cmdtext prio s =
     (let queuedCmd = \<lparr>command = cmdtext, priority = prio, handle = nextHandle s\<rparr>;
          q = (if prio = HIGH then
                 (case findIndex (\<lambda>cmd. priority cmd = NORMAL) (queue s) of
                    None \<Rightarrow> queue s @ [queuedCmd]
                  | Some insertIndex \<Rightarrow>
                      take insertIndex (queue s) @ queuedCmd # drop insertIndex (queue s))
               else queue s @ [queuedCmd])
      in processNext cfg (s\<lparr>nextHandle := Suc (nextHandle s), queue := q\<rparr>))"

definition enqueueHighPriority :: "LitetouchConfig \<Rightarrow> string \<Rightarrow> conn \<Rightarrow> conn" where
  "enqueueHighPriority cfg cmdtext s = enqueue cfg cmdtext HIGH s"

definition enqueuePolling :: "LitetouchConfig \<Rightarrow> string \<Rightarrow> conn \<Rightarrow> conn" where
  "enqueuePolling cfg cmdtext s = enqueue cfg cmdtext NORMAL s"

fun rejectAll :: "error \<Rightarrow> QueuedCommand list \<Rightarrow> (nat \<Rightarrow> string option promise)
    \<Rightarrow> (nat \<Rightarrow> string option promise)" where
  "rejectAll e [] tab = tab"
| "rejectAll e (cmd # cmds) tab = rejectAll e cmds (settle tab (handle cmd) (Rejected e))"

definition clear :: "conn \<Rightarrow> conn" where
  "clear s = s\<lparr>handles := rejectAll (Error ''Queue cleared'') (queue s) (handles s), queue := []\<rparr>"

definition clearPollingCommands :: "conn \<Rightarrow> conn" where
  "clearPollingCommands s =
     s\<lparr>handles := rejectAll (Error ''Polling command cancelled'')
                    (filter (\<lambda>cmd. priority cmd = NORMAL) (queue s)) (handles s),
       queue := filter (\<lambda>cmd. priority cmd \<noteq> NORMAL) (queue s)\<rparr>"

subsection \<open>LitetouchConnection\<close>

definition rawToLevel :: "int \<Rightarrow> int" where
  "rawToLevel r = (if r \<le> 1 then r * 100 else round ((real_of_int r / 250) * 100))"

definition parseStatusResponse :: "string \<Rightarrow> string option \<Rightarrow> LoadStatus option" where
  "parseStatusResponse response addr =
     (case matchStatus response of
        None \<Rightarrow> None
      | Some m \<Rightarrow>
          (case addr of
             None \<Rightarrow> None
           | Some a \<Rightarrow>
               if a = [] then None
               else Some \<lparr>address = a, level = rawToLevel (parseInt m), raw = parseInt m\<rparr>))"

definition handleResponse :: "string \<Rightarrow> conn \<Rightarrow> conn" where
  "handleResponse data s =
     (let trimmed = trim data;
          pendingAddress = (case pendingResponse s of None \<Rightarrow> None | Some p \<Rightarrow> pending_address p);
          s1 = (case pendingResponse s of
                  None \<Rightarrow> s
                | Some p \<Rightarrow>
                    (settleExchange (exch p) (Resolved (Some trimmed))
                       (s\<lparr>timers := (timers s)(exch p := None)\<rparr>))\<lparr>pendingResponse := None\<rparr>)
      in case parseStatusResponse trimmed pendingAddress of
           None \<Rightarrow> s1
         | Some status \<Rightarrow> s1\<lparr>emitted := emitted s1 @ [status]\<rparr>)"

text \<open>The callback of \<open>setTimeout\<close> in \<open>processCommand\<close>, for command \<open>i\<close>.\<close>

definition commandTimedOut :: "nat \<Rightarrow> conn \<Rightarrow> conn" where
  "commandTimedOut i s =
     settleExchange i (Resolved None) (s\<lparr>timers := (timers s)(i := None), pendingResponse := None\<rparr>)"

text \<open>The callback of \<open>port.write\<close> in \<open>processCommand\<close>, for command \<open>i\<close>.\<close>

definition writeCallback :: "nat \<Rightarrow> string option \<Rightarrow> conn \<Rightarrow> conn" where
  "writeCallback i err s =
     (case err of
        None \<Rightarrow> s\<lparr>writeCallbacks := writeCallbacks s - {i}\<rparr>
      | Some msg \<Rightarrow>
          settleExchange i (Rejected (Error msg))
            (s\<lparr>writeCallbacks := writeCallbacks s - {i},
               timers := (timers s)(i := None), pendingResponse := None\<rparr>))"

definition queryLoad :: "LitetouchConfig \<Rightarrow> string \<Rightarrow> conn \<Rightarrow> conn" where
  "queryLoad cfg addr s = enqueuePolling cfg ('' 18 '' @ addr) s"

definition setRelay :: "LitetouchConfig \<Rightarrow> string \<Rightarrow> bool \<Rightarrow> conn \<Rightarrow> conn" where
  "setRelay cfg addr on s =
     enqueueHighPriority cfg ('' 10 '' @ addr @ '' '' @ (if on then ''001'' else ''000'')) s"

text \<open>
  \<open>Math.max(0, Math.min(100, level))\<close>: both functions return NaN for NaN, and the infinities
  are cut like any other number.
\<close>

definition clampLevel :: "jsnum \<Rightarrow> jsnum" where
  "clampLevel lvl =
     (case lvl of
        NaN \<Rightarrow> NaN
      | PosInf \<Rightarrow> Num 100
      | NegInf \<Rightarrow> Num 0
      | Num x \<Rightarrow> Num (max 0 (min 100 x)))"

text \<open>
  \<open>Math.round((clampedLevel / 100) * 250)\<close>: the quotient and the product are rounded to
  doubles, \<open>Math.round\<close> is exact. The result is an integer, or NaN (\<open>None\<close>) for NaN.
\<close>

definition levelToRaw :: "jsnum \<Rightarrow> int option" where
  "levelToRaw lvl =
     (case clampLevel lvl of
        Num c \<Rightarrow> Some (round (fl (fl (c / 100) * 250)))
      | _ \<Rightarrow> None)"

text \<open>\<open>rawValue.toString().padStart(3, '0')\<close>; NaN prints as \<^verbatim>\<open>NaN\<close>.\<close>

definition dimmerValue :: "jsnum \<Rightarrow> string" where
  "dimmerValue lvl =
     padStart 3 (CHR ''0'') (case levelToRaw lvl of None \<Rightarrow> ''NaN'' | Some n \<Rightarrow> toString n)"

definition setDimmer :: "LitetouchConfig \<Rightarrow> string \<Rightarrow> jsnum \<Rightarrow> conn \<Rightarrow> conn" where
  "setDimmer cfg addr lvl s =
     enqueueHighPriority cfg ('' 10 '' @ addr @ '' '' @ dimmerValue lvl) s"

definition setLoadAddresses :: "string list \<Rightarrow> conn \<Rightarrow> conn" where
  "setLoadAddresses addrs s = s\<lparr>loadAddresses := addrs, currentPollingIndex := 0\<rparr>"

text \<open>
  \<open>pollNextLoad\<close>. Reading the array beyond its end gives \<open>undefined\<close>, which the template
  string prints as such.
\<close>

definition pollNextLoad :: "LitetouchConfig \<Rightarrow> conn \<Rightarrow> conn" where
  "pollNextLoad cfg s =
     (if length (loadAddresses s) = 0 then s\<lparr>pollingTimer := Some (pollingInterval cfg)\<rparr>
      else
        let addr = (if currentPollingIndex s < length (loadAddresses s)
                    then loadAddresses s ! currentPollingIndex s else ''undefined'');
            s1 = s\<lparr>currentPollingIndex :=
                     (currentPollingIndex s + 1) mod length (loadAddresses s)\<rparr>;
            s2 = queryLoad cfg addr s1
        in s2\<lparr>pollingTimer := Some (pollingInterval cfg)\<rparr>)"

definition startPolling :: "LitetouchConfig \<Rightarrow> conn \<Rightarrow> conn" where
  "startPolling cfg s = (if pollingTimer s \<noteq> None then s else pollNextLoad cfg s)"

definition stopPolling :: "conn \<Rightarrow> conn" where
  "stopPolling s = (if pollingTimer s \<noteq> None then s\<lparr>pollingTimer := None\<rparr> else s)"

definition close :: "conn \<Rightarrow> conn" where
  "close s =
     (let s1 = clear (stopPolling s);
          s2 = (case pendingResponse s1 of
                  None \<Rightarrow> s1
                | Some p \<Rightarrow>
                    (settleExchange (exch p) (Rejected (Error ''Connection closing''))
                       (s1\<lparr>timers := (timers s1)(exch p := None)\<rparr>))\<lparr>pendingResponse := None\<rparr>)
      in s2\<lparr>portOpen := False\<rparr>)"

subsection \<open>The event loop\<close>

datatype event =
    QueryLoad string
  | SetRelay string bool
  | SetDimmer string jsnum
  | Enqueue string CommandPriority
  | ClearPollingCommands
  | SetLoadAddresses "string list"
  | StartPolling
  | StopPolling
  | Close
  | PortOpened
  | PortClosed
  | Immediate
  | Data string
  | CommandTimer nat
  | WriteDone nat "string option"
  | PollingTimer

text \<open>
  A timer fires only while it is armed, a write callback is called once, a \<open>setImmediate\<close>
  callback runs once; an event that is not enabled leaves the state as it is.
\<close>

fun step :: "LitetouchConfig \<Rightarrow> conn \<Rightarrow> event \<Rightarrow> conn" where
  "step cfg s (QueryLoad a) = queryLoad cfg a s"
| "step cfg s (SetRelay a on) = setRelay cfg a on s"
| "step cfg s (SetDimmer a lvl) = setDimmer cfg a lvl s"
| "step cfg s (Enqueue c p) = enqueue cfg c p s"
| "step cfg s ClearPollingCommands = clearPollingCommands s"
| "step cfg s (SetLoadAddresses as) = setLoadAddresses as s"
| "step cfg s StartPolling = startPolling cfg s"
| "step cfg s StopPolling = stopPolling s"
| "step cfg s Close = close s"
| "step cfg s PortOpened = s\<lparr>portOpen := True\<rparr>"
| "step cfg s PortClosed = s\<lparr>portOpen := False\<rparr>"
| "step cfg s Immediate =
     (if immediates s = 0 then s else processNext cfg (s\<lparr>immediates := immediates s - 1\<rparr>))"
| "step cfg s (Data d) = handleResponse d s"
| "step cfg s (CommandTimer i) = (if timers s i = None then s else commandTimedOut i s)"
| "step cfg s (WriteDone i err) = (if i \<in> writeCallbacks s then writeCallback i err s else s)"
| "step cfg s PollingTimer = (if pollingTimer s = None then s else pollNextLoad cfg s)"

definition run :: "LitetouchConfig \<Rightarrow> event list \<Rightarrow> conn" where
  "run cfg es = foldl (step cfg) init es"

subsection \<open>The invariant of the engine\<close>

text \<open>
  The order of the queue: of two entries, the earlier one is HIGH and the later NORMAL, or
  both have the same priority and the earlier one was submitted first (handles are numbered
  in the order of submission).
\<close>

definition before :: "QueuedCommand \<Rightarrow> QueuedCommand \<Rightarrow> bool" where
  "before c d = ((priority c = HIGH \<and> priority d = NORMAL) \<or> (priority c = priority d \<and> handle c < handle d))"

definition queue_ordered :: "QueuedCommand list \<Rightarrow> bool" where
  "queue_ordered q = sorted_wrt before q"

text \<open>
  The insertion of \<open>enqueue\<close>, stated with \<open>takeWhile\<close> and \<open>dropWhile\<close>; lemma
  \<open>enqueue_insertCmd\<close> below shows that \<open>enqueue\<close> inserts exactly so.
\<close>

definition insertCmd :: "QueuedCommand \<Rightarrow> QueuedCommand list \<Rightarrow> QueuedCommand list" where
  "insertCmd x q = (if priority x = HIGH
      then takeWhile (\<lambda>c. priority c \<noteq> NORMAL) q @ x # dropWhile (\<lambda>c. priority c \<noteq> NORMAL) q
      else q @ [x])"

text \<open>
  The invariant. The queue is ordered; a queued command has a handle that was issued, is
  pending, has not been dispatched and has not been written; handles in the queue are distinct;
  handles not yet issued are pending; a HIGH entry still queued was submitted after every
  NORMAL command already written; a written command whose exchange is unsettled is the one in
  flight, the newest on the wire, and its handle is pending; an armed command timer was armed
  with \<open>commandTimeout\<close> and belongs to the command in flight; the pending exchange has an
  armed timer and the address captured from the command in flight; a write callback still
  outstanding belongs to a written command; every emitted status carries an address captured
  from a written command.
\<close>

definition conn_inv :: "LitetouchConfig \<Rightarrow> conn \<Rightarrow> bool" where
  "conn_inv cfg s = (
    queue_ordered (queue s) \<and>
    (\<forall>c\<in>set (queue s). handle c < nextHandle s \<and> handles s (handle c) = Pending
        \<and> exchange s (handle c) = Pending \<and> handle c \<notin> handle ` set (wire s)) \<and>
    distinct (map handle (queue s)) \<and>
    (\<forall>i. nextHandle s \<le> i \<longrightarrow> handles s i = Pending \<and> exchange s i = Pending) \<and>
    (\<forall>c\<in>set (wire s). handle c < nextHandle s) \<and>
    (\<forall>n\<in>set (wire s). priority n = NORMAL \<longrightarrow>
        (\<forall>h\<in>set (queue s). priority h = HIGH \<longrightarrow> handle n < handle h)) \<and>
    (\<forall>c\<in>set (wire s). exchange s (handle c) = Pending \<longrightarrow>
        processing s \<and> handle c = handle (hd (wire s)) \<and> handles s (handle c) = Pending) \<and>
    (\<forall>i d. timers s i = Some d \<longrightarrow>
        d = commandTimeout cfg \<and> wire s \<noteq> [] \<and> i = handle (hd (wire s)) \<and> exchange s i = Pending) \<and>
    (\<forall>p. pendingResponse s = Some p \<longrightarrow>
        timers s (exch p) \<noteq> None \<and> pending_address p = queryMatch (command (hd (wire s)))) \<and>
    writeCallbacks s \<subseteq> handle ` set (wire s) \<and>
    (\<forall>st\<in>set (emitted s). \<exists>c\<in>set (wire s). queryMatch (command c) = Some (address st)))"

text \<open>
  A turn of the event loop that takes state \<open>s\<close> to \<open>s'\<close> dispatches command \<open>c\<close>: it
  writes \<open>c\<close> to the port and installs its pending exchange.
\<close>

definition dispatches :: "conn \<Rightarrow> conn \<Rightarrow> QueuedCommand \<Rightarrow> bool" where
  "dispatches s s' c =
     (wire s' = c # wire s \<and> \<not> processing s \<and> emitted s' = emitted s
      \<and> pendingResponse s' = Some \<lparr>exch = handle c, pending_address = queryMatch (command c)\<rparr>
      \<and> (\<forall>d\<in>set (queue s'). before c d))"

text \<open>The default configuration, used for the concrete runs below.\<close>

definition demo_cfg :: LitetouchConfig where
  "demo_cfg = \<lparr>pollingInterval = 2000, commandTimeout = 1000\<rparr>"

section \<open>Properties\<close>

subsection \<open>Insertion into the queue\<close>

lemma findIndex_None: "findIndex P xs = None \<longleftrightarrow> (\<forall>x\<in>set xs. \<not> P x)"
  by (induction xs) auto

lemma findIndex_Some:
  "findIndex P xs = Some k \<Longrightarrow>
     take k xs = takeWhile (\<lambda>x. \<not> P x) xs \<and> drop k xs = dropWhile (\<lambda>x. \<not> P x) xs"
  by (induction xs arbitrary: k) (auto split: if_splits)

lemma enqueue_insertCmd:
  "enqueue cfg t p s =
     processNext cfg (s\<lparr>nextHandle := Suc (nextHandle s),
        queue := insertCmd \<lparr>command = t, priority = p, handle = nextHandle s\<rparr> (queue s)\<rparr>)"
proof (cases "findIndex (\<lambda>cmd. priority cmd = NORMAL) (queue s)")
  case None
  then have "\<forall>x\<in>set (queue s). priority x \<noteq> NORMAL" by (simp add: findIndex_None)
  then have tw: "takeWhile (\<lambda>c. priority c \<noteq> NORMAL) (queue s) = queue s"
    and dw: "dropWhile (\<lambda>c. priority c \<noteq> NORMAL) (queue s) = []" by auto
  show ?thesis unfolding enqueue_def insertCmd_def Let_def None tw dw by simp
next
  case (Some k)
  from findIndex_Some [OF this] Some show ?thesis
    by (simp add: enqueue_def insertCmd_def Let_def)
qed

lemma priority_cases: "priority c \<noteq> NORMAL \<longleftrightarrow> priority c = HIGH"
  by (cases "priority c") auto

lemma set_insertCmd: "set (insertCmd x q) = insert x (set q)"
proof -
  have "set q = set (takeWhile (\<lambda>c. priority c \<noteq> NORMAL) q @ dropWhile (\<lambda>c. priority c \<noteq> NORMAL) q)"
    by simp
  then show ?thesis unfolding insertCmd_def by (auto simp del: takeWhile_dropWhile_id)
qed

lemma ordered_dropWhile_normal:
  assumes "sorted_wrt before q" "d \<in> set (dropWhile (\<lambda>c. priority c \<noteq> NORMAL) q)"
  shows "priority d = NORMAL"
proof -
  let ?r = "dropWhile (\<lambda>c. priority c \<noteq> NORMAL) q"
  from assms(2) obtain y ys where r: "?r = y # ys" by (cases ?r) auto
  then have y: "priority y = NORMAL" using hd_dropWhile [of "\<lambda>c. priority c \<noteq> NORMAL" q] by auto
  have "sorted_wrt before (takeWhile (\<lambda>c. priority c \<noteq> NORMAL) q @ ?r)" using assms(1) by simp
  then have "sorted_wrt before ?r" unfolding sorted_wrt_append by blast
  with r have "\<forall>z\<in>set ys. before y z" by simp
  with y have "\<forall>z\<in>set ys. priority z = NORMAL" by (auto simp: before_def)
  with y r assms(2) show ?thesis by auto
qed

lemma before_normal: "priority x = NORMAL \<Longrightarrow> handle c < handle x \<Longrightarrow> before c x"
  by (cases "priority c") (simp_all add: before_def)

lemma ordered_insertCmd:
  assumes "sorted_wrt before q" "\<forall>c\<in>set q. handle c < handle x"
  shows "sorted_wrt before (insertCmd x q)"
proof (cases "priority x")
  case NORMAL
  then have "\<forall>c\<in>set q. before c x" using assms(2) by (blast intro: before_normal)
  with assms(1) NORMAL show ?thesis by (simp add: insertCmd_def sorted_wrt_append)
next
  case HIGH
  let ?P = "\<lambda>c. priority c \<noteq> NORMAL"
  let ?t = "takeWhile ?P q" and ?d = "dropWhile ?P q"
  have "sorted_wrt before (?t @ ?d)" using assms(1) by simp
  then have s1: "sorted_wrt before ?t" and s2: "sorted_wrt before ?d"
    and s3: "\<forall>c\<in>set ?t. \<forall>d\<in>set ?d. before c d"
    unfolding sorted_wrt_append by blast+
  have a: "\<forall>c\<in>set ?t. before c x"
  proof
    fix c assume c: "c \<in> set ?t"
    then have "c \<in> set q" "priority c \<noteq> NORMAL" by (auto dest: set_takeWhileD)
    then show "before c x" using assms(2) HIGH by (simp add: before_def priority_cases)
  qed
  have b: "\<forall>d\<in>set ?d. before x d"
  proof
    fix d assume "d \<in> set ?d"
    then have "priority d = NORMAL" by (rule ordered_dropWhile_normal [OF assms(1)])
    then show "before x d" using HIGH by (simp add: before_def)
  qed
  have "sorted_wrt before (?t @ x # ?d)"
    unfolding sorted_wrt_append using s1 s2 s3 a b by simp
  then show ?thesis using HIGH by (simp add: insertCmd_def)
qed

lemma distinct_insertCmd:
  assumes "distinct (map handle q)" "\<forall>c\<in>set q. handle c < handle x"
  shows "distinct (map handle (insertCmd x q))"
proof -
  let ?P = "\<lambda>c. priority c \<noteq> NORMAL"
  let ?t = "takeWhile ?P q" and ?d = "dropWhile ?P q"
  have "distinct (map handle (?t @ ?d))" using assms(1) by simp
  then have d1: "distinct (map handle ?t)" and d2: "distinct (map handle ?d)"
    and d3: "handle ` set ?t \<inter> handle ` set ?d = {}"
    unfolding map_append distinct_append by simp_all
  have n: "handle x \<notin> handle ` set q" using assms(2) by auto
  have "set ?t \<subseteq> set q" "set ?d \<subseteq> set q"
    by (auto dest: set_takeWhileD set_dropWhileD)
  with n have n1: "handle x \<notin> handle ` set ?t" and n2: "handle x \<notin> handle ` set ?d" by auto
  have "distinct (map handle (?t @ x # ?d))"
    unfolding map_append distinct_append list.map distinct.simps using d1 d2 d3 n1 n2 by auto
  moreover have "distinct (map handle (q @ [x]))" using assms(1) n by simp
  ultimately show ?thesis by (simp add: insertCmd_def)
qed

subsection \<open>The invariant holds in every reachable state\<close>

lemma inv_init: "conn_inv cfg init"
  by (simp add: conn_inv_def init_def queue_ordered_def)

lemma inv_idle:
  assumes "conn_inv cfg s" "\<not> processing s"
  shows "\<forall>c\<in>set (wire s). exchange s (handle c) \<noteq> Pending"
    and "\<forall>i. timers s i = None"
    and "pendingResponse s = None"
proof -
  show w: "\<forall>c\<in>set (wire s). exchange s (handle c) \<noteq> Pending"
    using assms unfolding conn_inv_def by blast
  show t: "\<forall>i. timers s i = None"
  proof
    fix i
    show "timers s i = None"
    proof (cases "timers s i")
      case (Some d)
      with assms(1) have "wire s \<noteq> []" "i = handle (hd (wire s))" "exchange s i = Pending"
        unfolding conn_inv_def by blast+
      with w show ?thesis by (cases "wire s") auto
    qed simp
  qed
  show "pendingResponse s = None"
  proof (cases "pendingResponse s")
    case (Some p)
    with assms(1) have "timers s (exch p) \<noteq> None" unfolding conn_inv_def by blast
    with t show ?thesis by simp
  qed simp
qed

lemma processNext_closed:
  assumes "conn_inv cfg s" "queue s = cmd # rest" "\<not> processing s" "\<not> portOpen s"
  shows "processNext cfg s =
    s\<lparr>queue := rest, exchange := (exchange s)(handle cmd := Rejected (Error ''Serial port not open'')),
      handles := (handles s)(handle cmd := Rejected (Error ''Serial port not open'')),
      immediates := (if rest \<noteq> [] then Suc (immediates s) else immediates s)\<rparr>"
proof -
  have "exchange s (handle cmd) = Pending" "handles s (handle cmd) = Pending"
    using assms(1,2) unfolding conn_inv_def by auto
  then show ?thesis using assms(2,3,4)
    by (simp add: processNext_def processCommand_def settleExchange_def processNext_resume_def settle_def)
qed

lemma processNext_open:
  assumes "queue s = cmd # rest" "\<not> processing s" "portOpen s"
  shows "processNext cfg s =
    s\<lparr>processing := True, queue := rest,
      timers := (timers s)(handle cmd \<mapsto> commandTimeout cfg),
      pendingResponse := Some \<lparr>exch = handle cmd, pending_address = queryMatch (command cmd)\<rparr>,
      wire := cmd # wire s,
      writeCallbacks := insert (handle cmd) (writeCallbacks s)\<rparr>"
  using assms by (simp add: processNext_def processCommand_def)

lemma inv_processNext:
  assumes "conn_inv cfg s"
  shows "conn_inv cfg (processNext cfg s)"
proof (cases "queue s")
  case Nil
  then show ?thesis using assms by (simp add: processNext_def)
next
  case (Cons cmd rest)
  show ?thesis
  proof (cases "processing s")
    case True
    then show ?thesis using assms Cons by (simp add: processNext_def)
  next
    case False
    note idle = inv_idle [OF assms False]
    have q: "queue_ordered rest" "distinct (map handle rest)" "handle cmd \<notin> handle ` set rest"
       "\<forall>c\<in>set rest. before cmd c"
      using assms Cons unfolding conn_inv_def queue_ordered_def by auto
    show ?thesis
    proof (cases "portOpen s")
      case closed: False
      show ?thesis unfolding processNext_closed [OF assms Cons False closed]
        using assms Cons False idle q unfolding conn_inv_def
        by (auto simp: image_iff)
    next
      case True
      show ?thesis unfolding processNext_open [OF Cons False True]
        using assms Cons False idle q unfolding conn_inv_def
        by (auto simp: image_iff before_def)
    qed
  qed
qed

lemma rejectAll_apply:
  "rejectAll e cs tab i = (if i \<in> handle ` set cs \<and> tab i = Pending then Rejected e else tab i)"
  by (induction cs arbitrary: tab) (auto simp: settle_def)

lemma inv_frame:
  assumes "conn_inv cfg s"
    and "queue s' = queue s" "processing s' = processing s" "handles s' = handles s"
    and "nextHandle s' = nextHandle s" "pendingResponse s' = pendingResponse s"
    and "exchange s' = exchange s" "timers s' = timers s" "writeCallbacks s' = writeCallbacks s"
    and "wire s' = wire s" "emitted s' = emitted s"
  shows "conn_inv cfg s'"
  using assms unfolding conn_inv_def by simp

lemma inv_enqueue_pre:
  assumes "conn_inv cfg s"
  shows "conn_inv cfg (s\<lparr>nextHandle := Suc (nextHandle s),
      queue := insertCmd \<lparr>command = t, priority = p, handle = nextHandle s\<rparr> (queue s)\<rparr>)"
proof -
  let ?x = "\<lparr>command = t, priority = p, handle = nextHandle s\<rparr>"
  have lt: "\<forall>c\<in>set (queue s). handle c < handle ?x" using assms unfolding conn_inv_def by simp
  have o: "queue_ordered (insertCmd ?x (queue s))"
    unfolding queue_ordered_def
    by (rule ordered_insertCmd) (use assms lt in \<open>simp_all add: conn_inv_def queue_ordered_def\<close>)
  have d: "distinct (map handle (insertCmd ?x (queue s)))"
    by (rule distinct_insertCmd) (use assms lt in \<open>simp_all add: conn_inv_def\<close>)
  show ?thesis
    using assms o d unfolding conn_inv_def
    by (auto simp: set_insertCmd less_Suc_eq)
qed

lemma inv_enqueue:
  assumes "conn_inv cfg s"
  shows "conn_inv cfg (enqueue cfg t p s)"
  unfolding enqueue_insertCmd by (rule inv_processNext [OF inv_enqueue_pre [OF assms]])

lemma conn_invD:
  assumes "conn_inv cfg s"
  shows inv_ordered: "queue_ordered (queue s)"
    and inv_queued: "\<And>c. c \<in> set (queue s) \<Longrightarrow> handle c < nextHandle s \<and> handles s (handle c) = Pending
        \<and> exchange s (handle c) = Pending \<and> handle c \<notin> handle ` set (wire s)"
    and inv_distinct: "distinct (map handle (queue s))"
    and inv_fresh: "\<And>i. nextHandle s \<le> i \<Longrightarrow> handles s i = Pending \<and> exchange s i = Pending"
    and inv_wire_lt: "\<And>c. c \<in> set (wire s) \<Longrightarrow> handle c < nextHandle s"
    and inv_priority: "\<And>n h. n \<in> set (wire s) \<Longrightarrow> priority n = NORMAL \<Longrightarrow> h \<in> set (queue s)
        \<Longrightarrow> priority h = HIGH \<Longrightarrow> handle n < handle h"
    and inv_flight: "\<And>c. c \<in> set (wire s) \<Longrightarrow> exchange s (handle c) = Pending \<Longrightarrow>
        processing s \<and> handle c = handle (hd (wire s)) \<and> handles s (handle c) = Pending"
    and inv_timers: "\<And>i d. timers s i = Some d \<Longrightarrow>
        d = commandTimeout cfg \<and> wire s \<noteq> [] \<and> i = handle (hd (wire s)) \<and> exchange s i = Pending"
    and inv_pendingResponse: "\<And>p. pendingResponse s = Some p \<Longrightarrow>
        timers s (exch p) \<noteq> None \<and> pending_address p = queryMatch (command (hd (wire s)))"
    and inv_writeCallbacks: "writeCallbacks s \<subseteq> handle ` set (wire s)"
    and inv_emitted: "\<And>st. st \<in> set (emitted s) \<Longrightarrow> \<exists>c\<in>set (wire s). queryMatch (command c) = Some (address st)"
  using assms unfolding conn_inv_def by simp_all

lemma inv_armed:
  assumes "conn_inv cfg s" "timers s i \<noteq> None"
  shows "wire s \<noteq> []" "i = handle (hd (wire s))" "exchange s i = Pending"
    "handles s i = Pending" "processing s" "hd (wire s) \<in> set (wire s)"
    "i \<notin> handle ` set (queue s)" "timers s i = Some (commandTimeout cfg)"
proof -
  from assms obtain d where d: "timers s i = Some d" by auto
  from inv_timers [OF assms(1) d] d
  show w: "wire s \<noteq> []" and i: "i = handle (hd (wire s))"
    and e: "exchange s i = Pending" and "timers s i = Some (commandTimeout cfg)"
    by blast+
  from w show h: "hd (wire s) \<in> set (wire s)" by simp
  from inv_flight [OF assms(1) h] e i show "handles s i = Pending" "processing s"
    by blast+
  from inv_queued [OF assms(1)] h i show "i \<notin> handle ` set (queue s)"
    by blast
qed

lemma inv_pending:
  assumes "conn_inv cfg s" "pendingResponse s = Some p"
  shows "timers s (exch p) \<noteq> None" "pending_address p = queryMatch (command (hd (wire s)))"
  using inv_pendingResponse [OF assms] by simp_all

lemma settleExchange_pending:
  assumes "exchange s i = Pending" "handles s i = Pending"
  shows "settleExchange i outcome s =
     s\<lparr>exchange := (exchange s)(i := outcome), handles := (handles s)(i := outcome),
       processing := False,
       immediates := (if queue s \<noteq> [] then Suc (immediates s) else immediates s)\<rparr>"
  using assms by (simp add: settleExchange_def processNext_resume_def settle_def)

lemma inv_settled:
  assumes inv: "conn_inv cfg s" and w: "i \<in> handle ` set (wire s)"
    and e: "exchange s i = Pending" and o: "outcome \<noteq> Pending"
  shows "conn_inv cfg (s\<lparr>timers := (timers s)(i := None), pendingResponse := None,
       exchange := (exchange s)(i := outcome), handles := (handles s)(i := outcome),
       processing := False, immediates := k, writeCallbacks := writeCallbacks s - W\<rparr>)"
    (is "conn_inv cfg ?s")
proof -
  from w obtain c where c: "c \<in> set (wire s)" "i = handle c" by auto
  from inv_flight [OF inv c(1)] e c(2)
  have hd: "i = handle (hd (wire s))" and h: "handles s i = Pending" by auto
  have t: "timers s j = None" if "j \<noteq> i" for j
    using inv_timers [OF inv, of j] hd that by (cases "timers s j") auto
  have lt: "i < nextHandle s" using inv_wire_lt [OF inv c(1)] c(2) by simp
  have nq: "handle x \<noteq> i" if "x \<in> set (queue s)" for x
    using inv_queued [OF inv that] w by auto
  have fl: "exchange s (handle x) \<noteq> Pending" if "x \<in> set (wire s)" "handle x \<noteq> i" for x
    using inv_flight [OF inv that(1)] that(2) hd by auto
  show ?thesis unfolding conn_inv_def
  proof (intro conjI)
    show "queue_ordered (queue ?s)" using inv_ordered [OF inv] by simp
    show "\<forall>c\<in>set (queue ?s). handle c < nextHandle ?s \<and> handles ?s (handle c) = Pending
        \<and> exchange ?s (handle c) = Pending \<and> handle c \<notin> handle ` set (wire ?s)"
      using inv_queued [OF inv] nq by simp
    show "distinct (map handle (queue ?s))" using inv_distinct [OF inv] by simp
    show "\<forall>i. nextHandle ?s \<le> i \<longrightarrow> handles ?s i = Pending \<and> exchange ?s i = Pending"
      using inv_fresh [OF inv] lt by simp
    show "\<forall>c\<in>set (wire ?s). handle c < nextHandle ?s" using inv_wire_lt [OF inv] by simp
    show "\<forall>n\<in>set (wire ?s). priority n = NORMAL \<longrightarrow>
        (\<forall>h\<in>set (queue ?s). priority h = HIGH \<longrightarrow> handle n < handle h)"
      using inv_priority [OF inv] by simp
    show "\<forall>c\<in>set (wire ?s). exchange ?s (handle c) = Pending \<longrightarrow>
        processing ?s \<and> handle c = handle (hd (wire ?s)) \<and> handles ?s (handle c) = Pending"
      using fl o by simp
    show "\<forall>i d. timers ?s i = Some d \<longrightarrow>
        d = commandTimeout cfg \<and> wire ?s \<noteq> [] \<and> i = handle (hd (wire ?s)) \<and> exchange ?s i = Pending"
      using t by simp
    show "\<forall>p. pendingResponse ?s = Some p \<longrightarrow>
        timers ?s (exch p) \<noteq> None \<and> pending_address p = queryMatch (command (hd (wire ?s)))"
      by simp
    show "writeCallbacks ?s \<subseteq> handle ` set (wire ?s)" using inv_writeCallbacks [OF inv] by auto
    show "\<forall>st\<in>set (emitted ?s). \<exists>c\<in>set (wire ?s). queryMatch (command c) = Some (address st)"
      using inv_emitted [OF inv] by simp
  qed
qed

lemma inv_armed_wire:
  assumes "conn_inv cfg s" "timers s i \<noteq> None"
  shows "i \<in> handle ` set (wire s)"
  using inv_armed(2,6) [OF assms] by blast

lemma commandTimedOut_armed:
  assumes "conn_inv cfg s" "timers s i \<noteq> None"
  shows "commandTimedOut i s =
     s\<lparr>timers := (timers s)(i := None), pendingResponse := None,
       exchange := (exchange s)(i := Resolved None), handles := (handles s)(i := Resolved None),
       processing := False,
       immediates := (if queue s \<noteq> [] then Suc (immediates s) else immediates s)\<rparr>"
  using inv_armed(3,4) [OF assms]
  by (simp add: commandTimedOut_def settleExchange_def processNext_resume_def settle_def)

lemma inv_commandTimedOut:
  assumes "conn_inv cfg s" "timers s i \<noteq> None"
  shows "conn_inv cfg (commandTimedOut i s)"
  using inv_settled [OF assms(1) inv_armed_wire [OF assms] inv_armed(3) [OF assms],
      where outcome = "Resolved None" and W = "{}"]
  unfolding commandTimedOut_armed [OF assms] by simp

lemma handleResponse_pending:
  assumes "conn_inv cfg s" "pendingResponse s = Some p"
  shows "handleResponse d s =
     (s\<lparr>timers := (timers s)(exch p := None), pendingResponse := None,
       exchange := (exchange s)(exch p := Resolved (Some (trim d))),
       handles := (handles s)(exch p := Resolved (Some (trim d))),
       processing := False,
       immediates := (if queue s \<noteq> [] then Suc (immediates s) else immediates s),
       emitted := (case parseStatusResponse (trim d) (pending_address p) of
           None \<Rightarrow> emitted s | Some status \<Rightarrow> emitted s @ [status])\<rparr>)"
proof -
  note a = inv_armed(3,4) [OF assms(1) inv_pending(1) [OF assms]]
  show ?thesis
  proof (cases "parseStatusResponse (trim d) (pending_address p)")
    case None
    with a assms(2) show ?thesis
      by (simp add: handleResponse_def settleExchange_def processNext_resume_def settle_def Let_def)
  next
    case (Some st)
    with a assms(2) show ?thesis
      by (simp add: handleResponse_def settleExchange_def processNext_resume_def settle_def Let_def)
  qed
qed

lemma handleResponse_idle:
  assumes "pendingResponse s = None"
  shows "handleResponse d s = s"
  using assms by (simp add: handleResponse_def parseStatusResponse_def split: option.splits)

lemma parseStatusResponse_address:
  "parseStatusResponse r a = Some st \<Longrightarrow> a = Some (address st)"
  by (auto simp: parseStatusResponse_def split: option.splits if_splits)

lemma inv_emit:
  assumes "conn_inv cfg s" "\<forall>st\<in>set sts. \<exists>c\<in>set (wire s). queryMatch (command c) = Some (address st)"
  shows "conn_inv cfg (s\<lparr>emitted := emitted s @ sts\<rparr>)"
  using assms unfolding conn_inv_def by auto

lemma inv_handleResponse:
  assumes "conn_inv cfg s"
  shows "conn_inv cfg (handleResponse d s)"
proof (cases "pendingResponse s")
  case None
  then show ?thesis using assms by (simp add: handleResponse_idle)
next
  case (Some p)
  note pe = inv_pending [OF assms Some]
  note a = inv_armed [OF assms pe(1)]
  let ?s = "s\<lparr>timers := (timers s)(exch p := None), pendingResponse := None,
       exchange := (exchange s)(exch p := Resolved (Some (trim d))),
       handles := (handles s)(exch p := Resolved (Some (trim d))),
       processing := False,
       immediates := (if queue s \<noteq> [] then Suc (immediates s) else immediates s),
       writeCallbacks := writeCallbacks s - {}\<rparr>"
  let ?sts = "case parseStatusResponse (trim d) (pending_address p) of
           None \<Rightarrow> [] | Some status \<Rightarrow> [status]"
  have i: "conn_inv cfg ?s"
    by (rule inv_settled [OF assms inv_armed_wire [OF assms pe(1)] a(3)]) simp
  have "\<forall>st\<in>set ?sts. \<exists>c\<in>set (wire ?s). queryMatch (command c) = Some (address st)"
    using pe(2) a(6) by (auto split: option.splits dest!: parseStatusResponse_address [OF sym])
  from inv_emit [OF i this] show ?thesis
    unfolding handleResponse_pending [OF assms Some]
    by (cases "queue s = []") (simp_all split: option.splits)
qed

lemma inv_writeCallback:
  assumes "conn_inv cfg s" "i \<in> writeCallbacks s"
  shows "conn_inv cfg (writeCallback i err s)"
proof (cases err)
  case None
  have "conn_inv cfg (s\<lparr>writeCallbacks := writeCallbacks s - {i}\<rparr>)"
    using assms(1) unfolding conn_inv_def by auto
  with None show ?thesis by (simp add: writeCallback_def)
next
  case (Some msg)
  have w: "i \<in> handle ` set (wire s)" using inv_writeCallbacks [OF assms(1)] assms(2) by blast
  show ?thesis
  proof (cases "exchange s i = Pending")
    case True
    from w obtain c where c: "c \<in> set (wire s)" "i = handle c" by auto
    from inv_flight [OF assms(1) c(1)] True c(2) have h: "handles s i = Pending" by auto
    have "writeCallback i err s = s\<lparr>timers := (timers s)(i := None), pendingResponse := None,
       exchange := (exchange s)(i := Rejected (Error msg)), handles := (handles s)(i := Rejected (Error msg)),
       processing := False,
       immediates := (if queue s \<noteq> [] then Suc (immediates s) else immediates s),
       writeCallbacks := writeCallbacks s - {i}\<rparr>"
      using True h Some
      by (simp add: writeCallback_def settleExchange_def processNext_resume_def settle_def)
    then show ?thesis
      using inv_settled [OF assms(1) w True, where outcome = "Rejected (Error msg)" and W = "{i}"]
      by simp
  next
    case False
    then have t: "timers s i = None" using inv_timers [OF assms(1), of i] by (cases "timers s i") auto
    then have "(timers s)(i := None) = timers s" by (simp add: fun_upd_idem)
    with False Some
    have "writeCallback i err s = s\<lparr>writeCallbacks := writeCallbacks s - {i}, pendingResponse := None\<rparr>"
      by (simp add: writeCallback_def settleExchange_def)
    moreover have "conn_inv cfg (s\<lparr>writeCallbacks := writeCallbacks s - {i}, pendingResponse := None\<rparr>)"
      using assms(1) unfolding conn_inv_def by auto
    ultimately show ?thesis by simp
  qed
qed

lemma inv_reject:
  assumes "conn_inv cfg s"
  shows "conn_inv cfg (s\<lparr>handles := rejectAll e (filter (\<lambda>c. \<not> P c) (queue s)) (handles s),
            queue := filter P (queue s)\<rparr>)"
proof -
  let ?q = "filter P (queue s)"
  let ?n = "filter (\<lambda>c. \<not> P c) (queue s)"
  let ?h = "rejectAll e ?n (handles s)"
  have d: "distinct (map handle ?q)" using inv_distinct [OF assms] by (simp add: distinct_map_filter)
  have o: "queue_ordered ?q" using inv_ordered [OF assms]
    unfolding queue_ordered_def by (rule sorted_wrt_filter)
  have keep: "?h (handle c) = Pending" if "c \<in> set ?q" for c
  proof -
    from that have c: "c \<in> set (queue s)" "P c" by auto
    have "handle c \<notin> handle ` set ?n"
    proof
      assume "handle c \<in> handle ` set ?n"
      then obtain x where x: "x \<in> set (queue s)" "\<not> P x" "handle x = handle c" by auto
      with c inv_distinct [OF assms] have "x = c"
        by (meson distinct_map inj_onD)
      with x c show False by simp
    qed
    with inv_queued [OF assms c(1)] show ?thesis by (simp add: rejectAll_apply)
  qed
  have fresh: "?h i = Pending" if "nextHandle s \<le> i" for i
  proof -
    have "i \<notin> handle ` set ?n" using inv_queued [OF assms] that by fastforce
    with inv_fresh [OF assms that] show ?thesis by (simp add: rejectAll_apply)
  qed
  have fl: "?h (handle c) = Pending" if "c \<in> set (wire s)" "exchange s (handle c) = Pending" for c
  proof -
    have "handle c \<notin> handle ` set ?n"
    proof
      assume "handle c \<in> handle ` set ?n"
      then obtain x where x: "x \<in> set (queue s)" "handle x = handle c" by auto
      with inv_queued [OF assms x(1)] that(1) show False by (metis imageI)
    qed
    moreover have "handles s (handle c) = Pending" using inv_flight [OF assms that] by blast
    ultimately show ?thesis by (simp add: rejectAll_apply)
  qed
  let ?s = "s\<lparr>handles := ?h, queue := ?q\<rparr>"
  show ?thesis unfolding conn_inv_def
  proof (intro conjI)
    show "queue_ordered (queue ?s)" using o by simp
    show "\<forall>c\<in>set (queue ?s). handle c < nextHandle ?s \<and> handles ?s (handle c) = Pending
        \<and> exchange ?s (handle c) = Pending \<and> handle c \<notin> handle ` set (wire ?s)"
      using inv_queued [OF assms] keep by simp
    show "distinct (map handle (queue ?s))" using d by simp
    show "\<forall>i. nextHandle ?s \<le> i \<longrightarrow> handles ?s i = Pending \<and> exchange ?s i = Pending"
      using inv_fresh [OF assms] fresh by simp
    show "\<forall>c\<in>set (wire ?s). handle c < nextHandle ?s" using inv_wire_lt [OF assms] by simp
    show "\<forall>n\<in>set (wire ?s). priority n = NORMAL \<longrightarrow>
        (\<forall>h\<in>set (queue ?s). priority h = HIGH \<longrightarrow> handle n < handle h)"
      using inv_priority [OF assms] by simp
    show "\<forall>c\<in>set (wire ?s). exchange ?s (handle c) = Pending \<longrightarrow>
        processing ?s \<and> handle c = handle (hd (wire ?s)) \<and> handles ?s (handle c) = Pending"
      using inv_flight [OF assms] fl by simp
    show "\<forall>i d. timers ?s i = Some d \<longrightarrow>
        d = commandTimeout cfg \<and> wire ?s \<noteq> [] \<and> i = handle (hd (wire ?s)) \<and> exchange ?s i = Pending"
      using inv_timers [OF assms] by simp
    show "\<forall>p. pendingResponse ?s = Some p \<longrightarrow>
        timers ?s (exch p) \<noteq> None \<and> pending_address p = queryMatch (command (hd (wire ?s)))"
      using inv_pendingResponse [OF assms] by simp
    show "writeCallbacks ?s \<subseteq> handle ` set (wire ?s)" using inv_writeCallbacks [OF assms] by simp
    show "\<forall>st\<in>set (emitted ?s). \<exists>c\<in>set (wire ?s). queryMatch (command c) = Some (address st)"
      using inv_emitted [OF assms] by simp
  qed
qed

lemma inv_clearPollingCommands:
  assumes "conn_inv cfg s"
  shows "conn_inv cfg (clearPollingCommands s)"
  using inv_reject [OF assms, where e = "Error ''Polling command cancelled''"
      and P = "\<lambda>c. priority c \<noteq> NORMAL"]
  by (simp add: clearPollingCommands_def)

lemma inv_clear:
  assumes "conn_inv cfg s"
  shows "conn_inv cfg (clear s)"
  using inv_reject [OF assms, where e = "Error ''Queue cleared''" and P = "\<lambda>c. False"]
  by (simp add: clear_def)

lemma inv_stopPolling:
  assumes "conn_inv cfg s"
  shows "conn_inv cfg (stopPolling s)"
proof -
  have "conn_inv cfg (s\<lparr>pollingTimer := None\<rparr>)" by (rule inv_frame [OF assms]) simp_all
  with assms show ?thesis by (simp add: stopPolling_def)
qed

lemma close_pending:
  assumes "conn_inv cfg s" "pendingResponse s = Some p"
  shows "close s =
     (clear (stopPolling s))\<lparr>timers := (timers s)(exch p := None), pendingResponse := None,
       exchange := (exchange s)(exch p := Rejected (Error ''Connection closing'')),
       handles := (handles (clear (stopPolling s)))(exch p := Rejected (Error ''Connection closing'')),
       processing := False, portOpen := False\<rparr>"
proof -
  let ?s1 = "clear (stopPolling s)"
  have i1: "conn_inv cfg ?s1" by (intro inv_clear inv_stopPolling assms)
  have p1: "pendingResponse ?s1 = Some p" "timers ?s1 = timers s" "exchange ?s1 = exchange s"
    "queue ?s1 = []"
    using assms(2) by (simp_all add: clear_def stopPolling_def)
  note a = inv_armed(3,4) [OF i1 inv_pending(1) [OF i1 p1(1)]]
  show ?thesis using a p1
    by (simp add: close_def settleExchange_def processNext_resume_def settle_def Let_def)
qed

lemma inv_close:
  assumes "conn_inv cfg s"
  shows "conn_inv cfg (close s)"
proof -
  let ?s1 = "clear (stopPolling s)"
  have i1: "conn_inv cfg ?s1" by (intro inv_clear inv_stopPolling assms)
  show ?thesis
  proof (cases "pendingResponse s")
    case None
    then have "pendingResponse ?s1 = None" by (simp add: clear_def stopPolling_def)
    then have "close s = ?s1\<lparr>portOpen := False\<rparr>" by (simp add: close_def)
    moreover have "conn_inv cfg (?s1\<lparr>portOpen := False\<rparr>)" by (rule inv_frame [OF i1]) simp_all
    ultimately show ?thesis by simp
  next
    case (Some p)
    have p1: "pendingResponse ?s1 = Some p" "timers ?s1 = timers s" "exchange ?s1 = exchange s"
      using Some by (simp_all add: clear_def stopPolling_def)
    note t = inv_pending(1) [OF i1 p1(1)]
    from inv_settled [OF i1 inv_armed_wire [OF i1 t] inv_armed(3) [OF i1 t],
        where outcome = "Rejected (Error ''Connection closing'')" and W = "{}" and k = "immediates ?s1"]
    have "conn_inv cfg (?s1\<lparr>timers := (timers s)(exch p := None), pendingResponse := None,
       exchange := (exchange s)(exch p := Rejected (Error ''Connection closing'')),
       handles := (handles ?s1)(exch p := Rejected (Error ''Connection closing'')),
       processing := False\<rparr>)" (is "conn_inv cfg ?s2")
      using p1 by simp
    then have "conn_inv cfg (?s2\<lparr>portOpen := False\<rparr>)" by (rule inv_frame) simp_all
    then show ?thesis unfolding close_pending [OF assms Some] by simp
  qed
qed

lemma inv_pollNextLoad:
  assumes "conn_inv cfg s"
  shows "conn_inv cfg (pollNextLoad cfg s)"
proof (cases "length (loadAddresses s) = 0")
  case True
  have "conn_inv cfg (s\<lparr>pollingTimer := Some (pollingInterval cfg)\<rparr>)"
    by (rule inv_frame [OF assms]) simp_all
  with True show ?thesis by (simp add: pollNextLoad_def)
next
  case False
  let ?a = "if currentPollingIndex s < length (loadAddresses s)
            then loadAddresses s ! currentPollingIndex s else ''undefined''"
  let ?s1 = "s\<lparr>currentPollingIndex := (currentPollingIndex s + 1) mod length (loadAddresses s)\<rparr>"
  have "conn_inv cfg ?s1" by (rule inv_frame [OF assms]) simp_all
  then have "conn_inv cfg (enqueue cfg ('' 18 '' @ ?a) NORMAL ?s1)" by (rule inv_enqueue)
  then have "conn_inv cfg ((enqueue cfg ('' 18 '' @ ?a) NORMAL ?s1)\<lparr>pollingTimer := Some (pollingInterval cfg)\<rparr>)"
    by (rule inv_frame) simp_all
  with False show ?thesis by (simp add: pollNextLoad_def queryLoad_def enqueuePolling_def Let_def)
qed

lemma inv_step:
  assumes "conn_inv cfg s"
  shows "conn_inv cfg (step cfg s e)"
proof (cases e)
  case (QueryLoad a)
  then show ?thesis using inv_enqueue [OF assms] by (simp add: queryLoad_def enqueuePolling_def)
next
  case (SetRelay a on)
  then show ?thesis using inv_enqueue [OF assms] by (simp add: setRelay_def enqueueHighPriority_def)
next
  case (SetDimmer a lvl)
  then show ?thesis using inv_enqueue [OF assms] by (simp add: setDimmer_def enqueueHighPriority_def)
next
  case (Enqueue c p)
  then show ?thesis using inv_enqueue [OF assms] by simp
next
  case ClearPollingCommands
  then show ?thesis using inv_clearPollingCommands [OF assms] by simp
next
  case (SetLoadAddresses as)
  have "conn_inv cfg (setLoadAddresses as s)" by (rule inv_frame [OF assms]) (simp_all add: setLoadAddresses_def)
  with SetLoadAddresses show ?thesis by simp
next
  case StartPolling
  then show ?thesis using inv_pollNextLoad [OF assms] assms by (simp add: startPolling_def)
next
  case StopPolling
  then show ?thesis using inv_stopPolling [OF assms] by simp
next
  case Close
  then show ?thesis using inv_close [OF assms] by simp
next
  case PortOpened
  have "conn_inv cfg (s\<lparr>portOpen := True\<rparr>)" by (rule inv_frame [OF assms]) simp_all
  with PortOpened show ?thesis by simp
next
  case PortClosed
  have "conn_inv cfg (s\<lparr>portOpen := False\<rparr>)" by (rule inv_frame [OF assms]) simp_all
  with PortClosed show ?thesis by simp
next
  case Immediate
  have "conn_inv cfg (s\<lparr>immediates := immediates s - 1\<rparr>)" by (rule inv_frame [OF assms]) simp_all
  then have "conn_inv cfg (processNext cfg (s\<lparr>immediates := immediates s - 1\<rparr>))" by (rule inv_processNext)
  with Immediate assms show ?thesis by simp
next
  case (Data d)
  then show ?thesis using inv_handleResponse [OF assms] by simp
next
  case (CommandTimer i)
  then show ?thesis using inv_commandTimedOut [OF assms, of i] assms by (cases "timers s i") simp_all
next
  case (WriteDone i err)
  then show ?thesis using inv_writeCallback [OF assms, of i err] assms by simp
next
  case PollingTimer
  then show ?thesis using inv_pollNextLoad [OF assms] assms by simp
qed

lemma inv_foldl: "conn_inv cfg s \<Longrightarrow> conn_inv cfg (foldl (step cfg) s es)"
  by (induction es arbitrary: s) (simp_all add: inv_step)

lemma inv_run: "conn_inv cfg (run cfg es)"
  unfolding run_def by (rule inv_foldl [OF inv_init])

lemma settleExchange_frame [simp]:
  "wire (settleExchange i outcome s) = wire s"
  "queue (settleExchange i outcome s) = queue s"
  "pendingResponse (settleExchange i outcome s) = pendingResponse s"
  "emitted (settleExchange i outcome s) = emitted s"
  "portOpen (settleExchange i outcome s) = portOpen s"
  "nextHandle (settleExchange i outcome s) = nextHandle s"
  "timers (settleExchange i outcome s) = timers s"
  by (simp_all add: settleExchange_def processNext_resume_def)

lemma processNext_shape:
  assumes "conn_inv cfg s"
  shows "(wire (processNext cfg s) = wire s \<and> pendingResponse (processNext cfg s) = pendingResponse s
          \<and> emitted (processNext cfg s) = emitted s)
       \<or> (\<exists>c. queue s = c # queue (processNext cfg s) \<and> \<not> processing s \<and> portOpen s
            \<and> wire (processNext cfg s) = c # wire s \<and> emitted (processNext cfg s) = emitted s
            \<and> pendingResponse (processNext cfg s)
                = Some \<lparr>exch = handle c, pending_address = queryMatch (command c)\<rparr>)"
proof (cases "queue s")
  case Nil
  then show ?thesis by (simp add: processNext_def)
next
  case (Cons cmd rest)
  show ?thesis
  proof (cases "processing s \<or> \<not> portOpen s")
    case True
    then show ?thesis using Cons by (auto simp: processNext_def processCommand_def)
  next
    case False
    then show ?thesis using Cons processNext_open [of s cmd rest cfg] by simp
  qed
qed



lemma processNext_dispatch:
  assumes "conn_inv cfg s"
  shows "(wire (processNext cfg s) = wire s \<and> pendingResponse (processNext cfg s) = pendingResponse s
           \<and> emitted (processNext cfg s) = emitted s)
       \<or> (\<exists>c. dispatches s (processNext cfg s) c)"
  using processNext_shape [OF assms]
proof
  assume "\<exists>c. queue s = c # queue (processNext cfg s) \<and> \<not> processing s \<and> portOpen s
            \<and> wire (processNext cfg s) = c # wire s \<and> emitted (processNext cfg s) = emitted s
            \<and> pendingResponse (processNext cfg s)
                = Some \<lparr>exch = handle c, pending_address = queryMatch (command c)\<rparr>"
  then obtain c where c: "queue s = c # queue (processNext cfg s)" "\<not> processing s"
      "wire (processNext cfg s) = c # wire s" "emitted (processNext cfg s) = emitted s"
      "pendingResponse (processNext cfg s)
                = Some \<lparr>exch = handle c, pending_address = queryMatch (command c)\<rparr>" by blast
  from inv_ordered [OF assms] c(1) have "\<forall>d\<in>set (queue (processNext cfg s)). before c d"
    unfolding queue_ordered_def by (metis sorted_wrt.simps(2))
  with c have "dispatches s (processNext cfg s) c" unfolding dispatches_def by simp
  then show ?thesis by blast
qed simp

lemma dispatches_frame [simp]:
  "dispatches (s\<lparr>nextHandle := n, queue := q\<rparr>) s' c = dispatches s s' c"
  "dispatches (s\<lparr>currentPollingIndex := k\<rparr>) s' c = dispatches s s' c"
  "dispatches (s\<lparr>immediates := m\<rparr>) s' c = dispatches s s' c"
  "dispatches s (s'\<lparr>pollingTimer := t\<rparr>) c = dispatches s s' c"
  by (simp_all add: dispatches_def)

lemma enqueue_shape:
  assumes "conn_inv cfg s"
  shows "(wire (enqueue cfg t p s) = wire s \<and> pendingResponse (enqueue cfg t p s) = pendingResponse s
           \<and> emitted (enqueue cfg t p s) = emitted s)
       \<or> (\<exists>c. dispatches s (enqueue cfg t p s) c)"
  using processNext_dispatch [OF inv_enqueue_pre [OF assms, of t p]]
  unfolding enqueue_insertCmd by auto

lemma pollNextLoad_shape:
  assumes "conn_inv cfg s"
  shows "(wire (pollNextLoad cfg s) = wire s \<and> pendingResponse (pollNextLoad cfg s) = pendingResponse s
           \<and> emitted (pollNextLoad cfg s) = emitted s)
       \<or> (\<exists>c. dispatches s (pollNextLoad cfg s) c)"
proof (cases "length (loadAddresses s) = 0")
  case True
  then show ?thesis by (simp add: pollNextLoad_def)
next
  case False
  let ?a = "if currentPollingIndex s < length (loadAddresses s)
            then loadAddresses s ! currentPollingIndex s else ''undefined''"
  let ?s1 = "s\<lparr>currentPollingIndex := (currentPollingIndex s + 1) mod length (loadAddresses s)\<rparr>"
  have p: "pollNextLoad cfg s = (enqueue cfg ('' 18 '' @ ?a) NORMAL ?s1)\<lparr>pollingTimer := Some (pollingInterval cfg)\<rparr>"
    using False by (simp add: pollNextLoad_def queryLoad_def enqueuePolling_def Let_def)
  have "conn_inv cfg ?s1" by (rule inv_frame [OF assms]) simp_all
  from enqueue_shape [OF this, of "'' 18 '' @ ?a" NORMAL] show ?thesis
    unfolding p by auto
qed

lemma handleResponse_shape:
  "wire (handleResponse d s) = wire s \<and> pendingResponse (handleResponse d s) = None"
  by (simp add: handleResponse_def Let_def parseStatusResponse_def split: option.splits)

lemma close_shape: "wire (close s) = wire s \<and> pendingResponse (close s) = None"
  by (simp add: close_def Let_def clear_def stopPolling_def split: option.splits)

lemma step_shape:
  assumes "conn_inv cfg s"
  shows "(wire (step cfg s e) = wire s
          \<and> (pendingResponse (step cfg s e) = pendingResponse s \<or> pendingResponse (step cfg s e) = None))
       \<or> (\<exists>c. dispatches s (step cfg s e) c)"
proof (cases e)
  case (QueryLoad a)
  then show ?thesis using enqueue_shape [OF assms, of "'' 18 '' @ a" NORMAL]
    by (auto simp: queryLoad_def enqueuePolling_def)
next
  case (SetRelay a on)
  then show ?thesis
    using enqueue_shape [OF assms, of "'' 10 '' @ a @ '' '' @ (if on then ''001'' else ''000'')" HIGH]
    by (auto simp: setRelay_def enqueueHighPriority_def)
next
  case (SetDimmer a lvl)
  then show ?thesis
    using enqueue_shape [OF assms, of "'' 10 '' @ a @ '' '' @ dimmerValue lvl" HIGH]
    by (auto simp: setDimmer_def enqueueHighPriority_def)
next
  case (Enqueue c p)
  then show ?thesis using enqueue_shape [OF assms, of c p] by auto
next
  case ClearPollingCommands
  then show ?thesis by (simp add: clearPollingCommands_def)
next
  case (SetLoadAddresses as)
  then show ?thesis by (simp add: setLoadAddresses_def)
next
  case StartPolling
  then show ?thesis using pollNextLoad_shape [OF assms] by (auto simp: startPolling_def)
next
  case StopPolling
  then show ?thesis by (simp add: stopPolling_def)
next
  case Close
  then show ?thesis by (simp add: close_shape)
next
  case PortOpened
  then show ?thesis by simp
next
  case PortClosed
  then show ?thesis by simp
next
  case Immediate
  have "conn_inv cfg (s\<lparr>immediates := immediates s - 1\<rparr>)" by (rule inv_frame [OF assms]) simp_all
  from processNext_dispatch [OF this] Immediate show ?thesis
    by auto
next
  case (Data d)
  then show ?thesis by (simp add: handleResponse_shape)
next
  case (CommandTimer i)
  then show ?thesis by (simp add: commandTimedOut_def)
next
  case (WriteDone i err)
  then show ?thesis by (cases err) (simp_all add: writeCallback_def)
next
  case PollingTimer
  then show ?thesis using pollNextLoad_shape [OF assms] by auto
qed

subsection \<open>The claims\<close>

text \<open>
  C1. At most one exchange is outstanding. In every reachable state \<open>s\<close> and for every
  event: the turn writes nothing to the port, or it writes exactly one command, and then no
  pending exchange was recorded in \<open>s\<close> and the exchange of every command written before has
  been settled (resolved by a response, resolved with null by its timeout, or rejected by a
  failure); the pending-exchange record stays, is cleared, or is installed where there was
  none, together with that write; and among the commands written so far at most one has an
  unsettled exchange.
\<close>

theorem C1_one_exchange_at_a_time:
  "let s = run cfg es; s' = step cfg s e in
     (wire s' = wire s
        \<or> (\<exists>c. wire s' = c # wire s \<and> pendingResponse s = None
              \<and> (\<forall>d\<in>set (wire s). exchange s (handle d) \<noteq> Pending)))
     \<and> (pendingResponse s' = pendingResponse s \<or> pendingResponse s' = None
        \<or> (\<exists>c. pendingResponse s = None \<and> wire s' = c # wire s
              \<and> pendingResponse s' = Some \<lparr>exch = handle c, pending_address = queryMatch (command c)\<rparr>))
     \<and> (\<forall>c\<in>set (wire s). \<forall>d\<in>set (wire s).
           exchange s (handle c) = Pending \<and> exchange s (handle d) = Pending \<longrightarrow> handle c = handle d)"
proof -
  let ?s = "run cfg es"
  let ?s' = "step cfg ?s e"
  have i: "conn_inv cfg ?s" by (rule inv_run)
  have d: "pendingResponse ?s = None \<and> (\<forall>d\<in>set (wire ?s). exchange ?s (handle d) \<noteq> Pending)"
    if "dispatches ?s ?s' c" for c
    using inv_idle [OF i] that unfolding dispatches_def by blast
  have a: "wire ?s' = wire ?s
        \<or> (\<exists>c. wire ?s' = c # wire ?s \<and> pendingResponse ?s = None
              \<and> (\<forall>d\<in>set (wire ?s). exchange ?s (handle d) \<noteq> Pending))"
    using step_shape [OF i, of e] d unfolding dispatches_def by blast
  have b: "pendingResponse ?s' = pendingResponse ?s \<or> pendingResponse ?s' = None
        \<or> (\<exists>c. pendingResponse ?s = None \<and> wire ?s' = c # wire ?s
              \<and> pendingResponse ?s' = Some \<lparr>exch = handle c, pending_address = queryMatch (command c)\<rparr>)"
    using step_shape [OF i, of e] d unfolding dispatches_def by blast
  have c: "\<forall>c\<in>set (wire ?s). \<forall>d\<in>set (wire ?s).
           exchange ?s (handle c) = Pending \<and> exchange ?s (handle d) = Pending \<longrightarrow> handle c = handle d"
    using inv_flight [OF i] by metis
  from a b c show ?thesis unfolding Let_def by blast
qed

text \<open>
  A run where the second case happens: the first command has been answered, and the next
  submission is written at once.
\<close>

theorem C1_witness:
  "\<exists>c. wire (step demo_cfg (run demo_cfg [PortOpened, SetRelay ''01-1'' True, Data ''ok'']) (QueryLoad ''01-1''))
         = c # wire (run demo_cfg [PortOpened, SetRelay ''01-1'' True, Data ''ok''])
       \<and> pendingResponse (run demo_cfg [PortOpened, SetRelay ''01-1'' True, Data ''ok'']) = None
       \<and> (\<forall>d\<in>set (wire (run demo_cfg [PortOpened, SetRelay ''01-1'' True, Data ''ok''])).
             exchange (run demo_cfg [PortOpened, SetRelay ''01-1'' True, Data ''ok'']) (handle d) \<noteq> Pending)"
proof -
  let ?s = "run demo_cfg [PortOpened, SetRelay ''01-1'' True, Data ''ok'']"
  have "wire (step demo_cfg ?s (QueryLoad ''01-1'')) \<noteq> wire ?s"
    by code_simp
  with C1_one_exchange_at_a_time [of demo_cfg "[PortOpened, SetRelay ''01-1'' True, Data ''ok'']" "QueryLoad ''01-1''"]
  show ?thesis unfolding Let_def by blast
qed

text \<open>
  C2. The priority order of the queue. In every reachable state, of any two queued entries the
  earlier one is HIGH and the later one NORMAL, or they have the same priority and the earlier
  one was submitted first; every HIGH entry still queued was submitted after every NORMAL
  command written to the port so far; and a turn that writes a NORMAL command leaves no HIGH
  entry in the queue.
\<close>

theorem C2_priority_order:
  "let s = run cfg es; q = queue s in
     (\<forall>i j. i < j \<and> j < length q \<longrightarrow>
        (priority (q ! i) = HIGH \<and> priority (q ! j) = NORMAL)
        \<or> (priority (q ! i) = priority (q ! j) \<and> handle (q ! i) < handle (q ! j)))
     \<and> (\<forall>n\<in>set (wire s). priority n = NORMAL \<longrightarrow>
          (\<forall>h\<in>set q. priority h = HIGH \<longrightarrow> handle n < handle h))
     \<and> (\<forall>c. wire (step cfg s e) = c # wire s \<and> priority c = NORMAL \<longrightarrow>
          (\<forall>h\<in>set (queue (step cfg s e)). priority h = NORMAL))"
proof -
  let ?s = "run cfg es"
  have i: "conn_inv cfg ?s" by (rule inv_run)
  have a: "\<forall>i j. i < j \<and> j < length (queue ?s) \<longrightarrow>
        (priority (queue ?s ! i) = HIGH \<and> priority (queue ?s ! j) = NORMAL)
        \<or> (priority (queue ?s ! i) = priority (queue ?s ! j) \<and> handle (queue ?s ! i) < handle (queue ?s ! j))"
    using inv_ordered [OF i] unfolding queue_ordered_def sorted_wrt_iff_nth_less before_def by blast
  have b: "\<forall>n\<in>set (wire ?s). priority n = NORMAL \<longrightarrow>
          (\<forall>h\<in>set (queue ?s). priority h = HIGH \<longrightarrow> handle n < handle h)"
    using inv_priority [OF i] by blast
  have c: "\<forall>h\<in>set (queue (step cfg ?s e)). priority h = NORMAL"
    if w: "wire (step cfg ?s e) = c # wire ?s" and n: "priority c = NORMAL" for c
  proof -
    from step_shape [OF i, of e] w obtain c' where "dispatches ?s (step cfg ?s e) c'" by auto
    with w have "\<forall>d\<in>set (queue (step cfg ?s e)). before c d" unfolding dispatches_def by simp
    with n show ?thesis unfolding before_def by auto
  qed
  from a b c show ?thesis unfolding Let_def by blast
qed

text \<open>
  A run with submissions of both classes: the first query is on the wire, the two set commands
  have moved in front of the two queued queries.
\<close>

theorem C2_witness:
  "map handle (queue (run demo_cfg [PortOpened, QueryLoad ''01-1'', QueryLoad ''01-2'',
       SetRelay ''02-1'' True, QueryLoad ''01-3'', SetDimmer ''03-1'' (Num 50)])) = [2, 4, 1, 3]
   \<and> map priority (queue (run demo_cfg [PortOpened, QueryLoad ''01-1'', QueryLoad ''01-2'',
       SetRelay ''02-1'' True, QueryLoad ''01-3'', SetDimmer ''03-1'' (Num 50)]))
       = [HIGH, HIGH, NORMAL, NORMAL]
   \<and> priority (hd (wire (run demo_cfg [PortOpened, QueryLoad ''01-1'', QueryLoad ''01-2'',
       SetRelay ''02-1'' True, QueryLoad ''01-3'', SetDimmer ''03-1'' (Num 50)]))) = NORMAL
   \<and> handle (hd (wire (run demo_cfg [PortOpened, QueryLoad ''01-1'', QueryLoad ''01-2'',
       SetRelay ''02-1'' True, QueryLoad ''01-3'', SetDimmer ''03-1'' (Num 50)])))
      < handle (hd (queue (run demo_cfg [PortOpened, QueryLoad ''01-1'', QueryLoad ''01-2'',
       SetRelay ''02-1'' True, QueryLoad ''01-3'', SetDimmer ''03-1'' (Num 50)])))"
proof -
  let ?es = "[PortOpened, QueryLoad ''01-1'', QueryLoad ''01-2'',
       SetRelay ''02-1'' True, QueryLoad ''01-3'', SetDimmer ''03-1'' (Num 50)]"
  let ?s = "run demo_cfg ?es"
  have w: "wire ?s = [\<lparr>command = '' 18 01-1'', priority = NORMAL, handle = 0\<rparr>]"
    by code_simp
  have q: "map handle (queue ?s) = [2, 4, 1, 3]"
    and p: "map priority (queue ?s) = [HIGH, HIGH, NORMAL, NORMAL]" by code_simp+
  from p have ne: "queue ?s \<noteq> []" by auto
  then have h: "hd (queue ?s) \<in> set (queue ?s)" by simp
  have ph: "priority (hd (queue ?s)) = HIGH" using p ne by (simp add: hd_map [symmetric])
  from w have n: "hd (wire ?s) \<in> set (wire ?s)" "priority (hd (wire ?s)) = NORMAL" by simp_all
  from C2_priority_order [of demo_cfg ?es] n h ph
  have "handle (hd (wire ?s)) < handle (hd (queue ?s))"
    unfolding Let_def by blast
  with q p n(2) show ?thesis by blast
qed

subsection \<open>Encoding and decoding of levels\<close>

lemma digit_char_0: "digit_char 0 = CHR ''0''"
  by code_simp

lemma is_digit_digit_char: "d < 10 \<Longrightarrow> is_digit (digit_char d)"
  by (simp add: is_digit_def digit_char_def)

lemma digit_val_digit_char: "d < 10 \<Longrightarrow> digit_val (digit_char d) = int d"
  by (simp add: digit_val_def digit_char_def)

lemma digit_val_range: "is_digit c \<Longrightarrow> 0 \<le> digit_val c \<and> digit_val c \<le> 9"
  by (auto simp: is_digit_def digit_val_def)

lemma parseInt3: "parseInt [a, b, c] = 100 * digit_val a + 10 * digit_val b + digit_val c"
  by (simp add: parseInt_def)

lemma pad3:
  assumes "n < 1000"
  shows "padStart 3 (CHR ''0'') (digits n)
     = [digit_char (n div 100), digit_char (n div 10 mod 10), digit_char (n mod 10)]"
proof -
  consider "n < 10" | "10 \<le> n" "n < 100" | "100 \<le> n" by linarith
  then show ?thesis
  proof cases
    case 1
    then have "digits n = [digit_char n]" by (simp add: digits.simps)
    with 1 show ?thesis by (simp add: padStart_def digit_char_0 numeral_3_eq_3)
  next
    case 2
    then have a: "n div 10 < 10" "n div 100 = 0" by simp_all
    then have "digits (n div 10) = [digit_char (n div 10)]" by (simp add: digits.simps)
    with 2 have "digits n = [digit_char (n div 10), digit_char (n mod 10)]"
      by (subst digits.simps) simp
    with a show ?thesis by (simp add: padStart_def digit_char_0)
  next
    case 3
    with assms have a: "\<not> n div 10 < 10" "n div 10 div 10 < 10" "n div 10 div 10 = n div 100"
      by (simp_all add: div_mult2_eq [symmetric])
    have "digits (n div 10 div 10) = [digit_char (n div 100)]"
      using a by (simp add: digits.simps)
    with a have "digits (n div 10) = [digit_char (n div 100), digit_char (n div 10 mod 10)]"
      by (subst digits.simps) simp
    with 3 have "digits n = [digit_char (n div 100), digit_char (n div 10 mod 10), digit_char (n mod 10)]"
      by (subst digits.simps) simp
    then show ?thesis by (simp add: padStart_def)
  qed
qed

lemma three_digits:
  fixes n :: nat
  shows "100 * (n div 100) + 10 * (n div 10 mod 10) + n mod 10 = n"
proof -
  have h: "n div 100 = n div 10 div 10" by (simp add: div_mult2_eq [symmetric])
  have e1: "n div 10 = 10 * (n div 10 div 10) + n div 10 mod 10" by (rule mult_div_mod_eq [symmetric])
  have e2: "n = 10 * (n div 10) + n mod 10" by (rule mult_div_mod_eq [symmetric])
  from h e1 e2 show ?thesis by linarith
qed

lemma digit_bounds:
  fixes n :: nat
  assumes "n < 1000"
  shows "n div 100 < 10" "n div 10 mod 10 < 10" "n mod 10 < 10"
  using assms by (simp_all add: div_less_iff_less_mult)

lemma digit_char_2: "digit_char 2 = CHR ''2''" and digit_char_5: "digit_char 5 = CHR ''5''"
  and digit_char_1: "digit_char (Suc 0) = CHR ''1''"
  by code_simp+

lemma matchStatus_digits:
  assumes "matchStatus response = Some m"
  shows "\<exists>a b c. m = [a, b, c] \<and> is_digit a \<and> is_digit b \<and> is_digit c"
proof -
  from assms have "length m = 3" "list_all is_digit m"
    by (auto simp: matchStatus_def split: list.splits if_splits)
  then show ?thesis by (cases m rule: list.exhaust) (auto simp: length_Suc_conv numeral_3_eq_3)
qed

lemma rawToLevel_dimmer:
  assumes "2 \<le> r" "r \<le> 250"
  shows "rawToLevel r = round (real_of_int r / 250 * 100)" "1 \<le> rawToLevel r" "rawToLevel r \<le> 100"
proof -
  show e: "rawToLevel r = round (real_of_int r / 250 * 100)" using assms by (simp add: rawToLevel_def)
  have "(4/5::real) \<le> real_of_int r / 250 * 100" using assms by simp
  then have "round (4/5::real) \<le> round (real_of_int r / 250 * 100)" by (rule round_mono)
  moreover have "round (4/5 :: real) = 1" by (simp add: round_def)
  ultimately show "1 \<le> rawToLevel r" unfolding e by simp
  have "real_of_int r / 250 * 100 \<le> (100::real)" using assms by simp
  then have "round (real_of_int r / 250 * 100) \<le> round (100::real)" by (rule round_mono)
  then show "rawToLevel r \<le> 100" unfolding e by simp
qed

lemma matchStatus_line:
  assumes "is_digit d1" "is_digit d2" "is_digit d3"
  shows "matchStatus (''18 '' @ [d1, d2, d3]) = Some [d1, d2, d3]"
proof -
  have sp: "is_space (CHR '' '')" by (simp add: is_space_def)
  have nd: "\<not> is_space d1" using assms(1) by (auto simp: is_space_def is_digit_def)
  show ?thesis using assms sp nd by (simp add: matchStatus_def)
qed

text \<open>
  C4. The decoding of a status response. Whenever a response correlated to an address yields
  a status, the status carries that address and a raw value in 0..999; raw 0 gives level 0, raw
  1 gives level 100, and a raw value in 2..250 gives the level \<open>round (raw / 250 * 100)\<close>,
  which lies in 1..100. Every line \<^verbatim>\<open>18 ddd\<close> of three digits correlated to a non-empty address
  yields the status whose raw value is the number the digits spell. In particular
  \<^verbatim>\<open>18 000\<close> for \<^verbatim>\<open>05-1\<close> gives raw 0, level 0, and \<^verbatim>\<open>18 125\<close> for \<^verbatim>\<open>01-1\<close> gives raw 125,
  level 50.
\<close>

theorem C4_response_decoding:
  "(parseStatusResponse response (Some a) = Some st \<longrightarrow>
      address st = a \<and> 0 \<le> raw st \<and> raw st \<le> 999
      \<and> (raw st = 0 \<longrightarrow> level st = 0)
      \<and> (raw st = 1 \<longrightarrow> level st = 100)
      \<and> (2 \<le> raw st \<and> raw st \<le> 250 \<longrightarrow>
            level st = round (real_of_int (raw st) / 250 * 100) \<and> 1 \<le> level st \<and> level st \<le> 100))
   \<and> (is_digit d1 \<and> is_digit d2 \<and> is_digit d3 \<and> a \<noteq> [] \<longrightarrow>
        parseStatusResponse (''18 '' @ [d1, d2, d3]) (Some a)
          = Some \<lparr>address = a,
                  level = rawToLevel (100 * digit_val d1 + 10 * digit_val d2 + digit_val d3),
                  raw = 100 * digit_val d1 + 10 * digit_val d2 + digit_val d3\<rparr>)
   \<and> parseStatusResponse ''18 000'' (Some ''05-1'') = Some \<lparr>address = ''05-1'', level = 0, raw = 0\<rparr>
   \<and> parseStatusResponse ''18 125'' (Some ''01-1'') = Some \<lparr>address = ''01-1'', level = 50, raw = 125\<rparr>"
proof (intro conjI impI)
  assume p: "parseStatusResponse response (Some a) = Some st"
  then obtain m where m: "matchStatus response = Some m" "a \<noteq> []"
    and st: "st = \<lparr>address = a, level = rawToLevel (parseInt m), raw = parseInt m\<rparr>"
    by (auto simp: parseStatusResponse_def split: option.splits if_splits)
  from matchStatus_digits [OF m(1)] obtain x y z where
    xyz: "m = [x, y, z]" "is_digit x" "is_digit y" "is_digit z" by blast
  from st show "address st = a" by simp
  from digit_val_range [OF xyz(2)] digit_val_range [OF xyz(3)] digit_val_range [OF xyz(4)]
  show "0 \<le> raw st" "raw st \<le> 999" unfolding st xyz(1) by (simp_all add: parseInt3)
  have l: "level st = rawToLevel (raw st)" using st by simp
  { assume "raw st = 0" then show "level st = 0" unfolding l by (simp add: rawToLevel_def) }
  { assume "raw st = 1" then show "level st = 100" unfolding l by (simp add: rawToLevel_def) }
  { assume r: "2 \<le> raw st \<and> raw st \<le> 250"
    then have r2: "2 \<le> raw st" and r250: "raw st \<le> 250" by simp_all
    from rawToLevel_dimmer [OF r2 r250]
    show "level st = round (real_of_int (raw st) / 250 * 100)" "1 \<le> level st" "level st \<le> 100"
      unfolding l by simp_all }
next
  assume d: "is_digit d1 \<and> is_digit d2 \<and> is_digit d3 \<and> a \<noteq> []"
  then have "matchStatus (''18 '' @ [d1, d2, d3]) = Some [d1, d2, d3]"
    by (intro matchStatus_line) simp_all
  with d show "parseStatusResponse (''18 '' @ [d1, d2, d3]) (Some a)
          = Some \<lparr>address = a,
                  level = rawToLevel (100 * digit_val d1 + 10 * digit_val d2 + digit_val d3),
                  raw = 100 * digit_val d1 + 10 * digit_val d2 + digit_val d3\<rparr>"
    by (simp add: parseStatusResponse_def parseInt3)
next
  show "parseStatusResponse ''18 000'' (Some ''05-1'') = Some \<lparr>address = ''05-1'', level = 0, raw = 0\<rparr>"
    by code_simp
  show "parseStatusResponse ''18 125'' (Some ''01-1'') = Some \<lparr>address = ''01-1'', level = 50, raw = 125\<rparr>"
    by code_simp
qed

text \<open>A relay that is on, and a dimmer at full level.\<close>

theorem C4_witness:
  "parseStatusResponse ''18 001'' (Some ''05-1'') = Some \<lparr>address = ''05-1'', level = 100, raw = 1\<rparr>
   \<and> parseStatusResponse ''18 250'' (Some ''01-1'') = Some \<lparr>address = ''01-1'', level = 100, raw = 250\<rparr>
   \<and> round (real_of_int 250 / 250 * 100) = (100::int)"
proof -
  have d: "is_digit (CHR ''0'')" "is_digit (CHR ''1'')" "is_digit (CHR ''2'')" "is_digit (CHR ''5'')"
    by (simp_all add: is_digit_def)
  have v: "digit_val (CHR ''0'') = 0" "digit_val (CHR ''1'') = 1" "digit_val (CHR ''2'') = 2"
    "digit_val (CHR ''5'') = 5"
    by (simp_all add: digit_val_def)
  have a: "parseStatusResponse ''18 001'' (Some ''05-1'') = Some \<lparr>address = ''05-1'', level = 100, raw = 1\<rparr>"
    using C4_response_decoding [of "''18 001''" "''05-1''" _ "CHR ''0''" "CHR ''0''" "CHR ''1''"] d v
    by (simp add: rawToLevel_def)
  have b: "parseStatusResponse ''18 250'' (Some ''01-1'') = Some \<lparr>address = ''01-1'', level = rawToLevel 250, raw = 250\<rparr>"
    using C4_response_decoding [of "''18 250''" "''01-1''" _ "CHR ''2''" "CHR ''5''" "CHR ''0''"] d v
    by simp
  from C4_response_decoding [of "''18 250''" "''01-1''"
      "\<lparr>address = ''01-1'', level = rawToLevel 250, raw = 250\<rparr>" "CHR ''2''" "CHR ''5''" "CHR ''0''"] b
  have c: "rawToLevel 250 = round (real_of_int 250 / 250 * 100)" by simp
  have "round (real_of_int 250 / 250 * 100) = (100::int)" by simp
  with a b c show ?thesis by simp
qed

lemma round_bounds:
  fixes x :: real
  shows "x - 1/2 \<le> real_of_int (round x)" "real_of_int (round x) \<le> x + 1/2"
  by (rule of_int_round_ge, rule of_int_round_le)

lemma rawToLevel_bounds:
  assumes "2 \<le> r"
  shows "real_of_int r * 2 / 5 - 1/2 \<le> real_of_int (rawToLevel r)"
    and "real_of_int (rawToLevel r) \<le> real_of_int r * 2 / 5 + 1/2"
proof -
  have d: "rawToLevel r = round (real_of_int r / 250 * 100)" using assms by (simp add: rawToLevel_def)
  have e: "real_of_int r / 250 * 100 = real_of_int r * 2 / 5" by simp
  show "real_of_int r * 2 / 5 - 1/2 \<le> real_of_int (rawToLevel r)"
    and "real_of_int (rawToLevel r) \<le> real_of_int r * 2 / 5 + 1/2"
    unfolding d e by (rule round_bounds)+
qed

text \<open>
  C7. \<open>clearPollingCommands\<close> in any reachable state: the queue keeps exactly its HIGH
  entries, in their order; the handle of every queued NORMAL entry is rejected with the error
  ``Polling command cancelled''; the handle of every queued HIGH entry was pending and stays
  pending; no other handle changes, and neither do the commands already written, the pending
  exchange, its timer and the state of the exchanges.
\<close>

theorem C7_clearPollingCommands:
  "let s = run cfg es; s' = clearPollingCommands s in
     queue s' = filter (\<lambda>c. priority c = HIGH) (queue s)
     \<and> (\<forall>c\<in>set (queue s). priority c = NORMAL \<longrightarrow>
           handles s' (handle c) = Rejected (Error ''Polling command cancelled''))
     \<and> (\<forall>c\<in>set (queue s). priority c = HIGH \<longrightarrow>
           handles s (handle c) = Pending \<and> handles s' (handle c) = Pending)
     \<and> (\<forall>i. i \<notin> handle ` set (filter (\<lambda>c. priority c = NORMAL) (queue s)) \<longrightarrow>
           handles s' i = handles s i)
     \<and> wire s' = wire s \<and> processing s' = processing s \<and> pendingResponse s' = pendingResponse s
     \<and> timers s' = timers s \<and> exchange s' = exchange s"
proof -
  let ?s = "run cfg es"
  let ?s' = "clearPollingCommands ?s"
  have i: "conn_inv cfg ?s" by (rule inv_run)
  have i': "conn_inv cfg ?s'" by (rule inv_clearPollingCommands [OF i])
  have q: "queue ?s' = filter (\<lambda>c. priority c = HIGH) (queue ?s)"
    by (simp add: clearPollingCommands_def priority_cases)
  have n: "handles ?s' (handle c) = Rejected (Error ''Polling command cancelled'')"
    if "c \<in> set (queue ?s)" "priority c = NORMAL" for c
    using that inv_queued [OF i that(1)] by (simp add: clearPollingCommands_def rejectAll_apply)
  have h: "handles ?s (handle c) = Pending \<and> handles ?s' (handle c) = Pending"
    if "c \<in> set (queue ?s)" "priority c = HIGH" for c
  proof -
    from that have "c \<in> set (queue ?s')" unfolding q by simp
    from inv_queued [OF i that(1)] inv_queued [OF i' this] show ?thesis by simp
  qed
  have o: "handles ?s' j = handles ?s j"
    if "j \<notin> handle ` set (filter (\<lambda>c. priority c = NORMAL) (queue ?s))" for j
    using that by (simp add: clearPollingCommands_def rejectAll_apply)
  have f: "wire ?s' = wire ?s \<and> processing ?s' = processing ?s \<and> pendingResponse ?s' = pendingResponse ?s
     \<and> timers ?s' = timers ?s \<and> exchange ?s' = exchange ?s"
    by (simp add: clearPollingCommands_def)
  from q n h o f show ?thesis unfolding Let_def by blast
qed

text \<open>
  A run with one command in flight and two set commands in front of two queries in the queue.
\<close>

theorem C7_witness:
  "map handle (queue (clearPollingCommands (run demo_cfg [PortOpened, QueryLoad ''01-1'',
      QueryLoad ''01-2'', SetRelay ''02-1'' True, QueryLoad ''01-3'', SetDimmer ''03-1'' (Num 50)]))) = [2, 4]
   \<and> handles (clearPollingCommands (run demo_cfg [PortOpened, QueryLoad ''01-1'',
      QueryLoad ''01-2'', SetRelay ''02-1'' True, QueryLoad ''01-3'', SetDimmer ''03-1'' (Num 50)])) 1
       = Rejected (Error ''Polling command cancelled'')
   \<and> handles (clearPollingCommands (run demo_cfg [PortOpened, QueryLoad ''01-1'',
      QueryLoad ''01-2'', SetRelay ''02-1'' True, QueryLoad ''01-3'', SetDimmer ''03-1'' (Num 50)])) 2
       = Pending"
proof -
  let ?es = "[PortOpened, QueryLoad ''01-1'',
      QueryLoad ''01-2'', SetRelay ''02-1'' True, QueryLoad ''01-3'', SetDimmer ''03-1'' (Num 50)]"
  let ?s = "run demo_cfg ?es"
  have q: "queue ?s = [\<lparr>command = '' 10 02-1 001'', priority = HIGH, handle = 2\<rparr>,
      \<lparr>command = '' 10 03-1 125'', priority = HIGH, handle = 4\<rparr>,
      \<lparr>command = '' 18 01-2'', priority = NORMAL, handle = 1\<rparr>,
      \<lparr>command = '' 18 01-3'', priority = NORMAL, handle = 3\<rparr>]"
    by code_simp
  from C7_clearPollingCommands [of demo_cfg ?es] show ?thesis
    unfolding Let_def q by simp
qed

text \<open>
  C9. Polling with an empty address list. A tick only arms the timer again, with the polling
  interval: it submits nothing and changes nothing else. So does \<open>startPolling\<close>. After any
  number of ticks the timer is armed again, so the next tick is enabled. Once addresses are
  set, the next tick submits the query for the first address and arms the timer again.
\<close>

theorem C9_polling_empty_list:
  "loadAddresses s = [] \<longrightarrow>
     pollNextLoad cfg s = s\<lparr>pollingTimer := Some (pollingInterval cfg)\<rparr>
     \<and> startPolling cfg (s\<lparr>pollingTimer := None\<rparr>) = s\<lparr>pollingTimer := Some (pollingInterval cfg)\<rparr>
     \<and> foldl (step cfg) (pollNextLoad cfg s) (replicate n PollingTimer)
          = s\<lparr>pollingTimer := Some (pollingInterval cfg)\<rparr>
     \<and> step cfg (step cfg (pollNextLoad cfg s) (SetLoadAddresses (a # as))) PollingTimer
          = (queryLoad cfg a (s\<lparr>pollingTimer := Some (pollingInterval cfg),
                loadAddresses := a # as,
                currentPollingIndex := 1 mod length (a # as)\<rparr>))
            \<lparr>pollingTimer := Some (pollingInterval cfg)\<rparr>"
proof
  assume e: "loadAddresses s = []"
  let ?t = "s\<lparr>pollingTimer := Some (pollingInterval cfg)\<rparr>"
  have p: "pollNextLoad cfg s = ?t" using e by (simp add: pollNextLoad_def)
  have t: "pollNextLoad cfg ?t = ?t" using e by (simp add: pollNextLoad_def)
  have f: "foldl (step cfg) ?t (replicate n PollingTimer) = ?t"
    by (induction n) (simp_all add: t)
  have st: "startPolling cfg (s\<lparr>pollingTimer := None\<rparr>) = ?t"
    using e by (simp add: startPolling_def pollNextLoad_def)
  have u: "step cfg (step cfg ?t (SetLoadAddresses (a # as))) PollingTimer
          = (queryLoad cfg a (s\<lparr>pollingTimer := Some (pollingInterval cfg),
                loadAddresses := a # as,
                currentPollingIndex := 1 mod length (a # as)\<rparr>))
            \<lparr>pollingTimer := Some (pollingInterval cfg)\<rparr>"
    by (simp add: setLoadAddresses_def pollNextLoad_def Let_def)
  from p f st u show "pollNextLoad cfg s = ?t
     \<and> startPolling cfg (s\<lparr>pollingTimer := None\<rparr>) = ?t
     \<and> foldl (step cfg) (pollNextLoad cfg s) (replicate n PollingTimer) = ?t
     \<and> step cfg (step cfg (pollNextLoad cfg s) (SetLoadAddresses (a # as))) PollingTimer
          = (queryLoad cfg a (s\<lparr>pollingTimer := Some (pollingInterval cfg),
                loadAddresses := a # as,
                currentPollingIndex := 1 mod length (a # as)\<rparr>))
            \<lparr>pollingTimer := Some (pollingInterval cfg)\<rparr>"
    by simp
qed

text \<open>
  Polling started on the initial state with the port open: three ticks leave the timer armed
  with 2000 ms and the queue empty; after the addresses arrive, the next tick writes the query
  for the first one.
\<close>

theorem C9_witness:
  "pollingTimer (run demo_cfg [PortOpened, StartPolling, PollingTimer, PollingTimer, PollingTimer])
     = Some 2000
   \<and> nextHandle (run demo_cfg [PortOpened, StartPolling, PollingTimer, PollingTimer, PollingTimer]) = 0
   \<and> map command (wire (run demo_cfg [PortOpened, StartPolling, PollingTimer, PollingTimer,
        PollingTimer, SetLoadAddresses [''01-1'', ''01-2''], PollingTimer])) = ['' 18 01-1'']"
proof -
  let ?s = "init\<lparr>portOpen := True\<rparr>"
  have l: "loadAddresses ?s = []" by (simp add: init_def)
  have r: "run demo_cfg [PortOpened, StartPolling, PollingTimer, PollingTimer, PollingTimer]
      = foldl (step demo_cfg) (pollNextLoad demo_cfg ?s) (replicate 3 PollingTimer)"
    by (simp add: run_def startPolling_def init_def numeral_3_eq_3)
  have r2: "run demo_cfg [PortOpened, StartPolling, PollingTimer, PollingTimer,
        PollingTimer, SetLoadAddresses [''01-1'', ''01-2''], PollingTimer]
      = step demo_cfg (step demo_cfg
          (foldl (step demo_cfg) (pollNextLoad demo_cfg ?s) (replicate 3 PollingTimer))
          (SetLoadAddresses [''01-1'', ''01-2''])) PollingTimer"
    by (simp add: run_def startPolling_def init_def numeral_3_eq_3)
  from C9_polling_empty_list [of ?s demo_cfg 3 "''01-1''" "[''01-2'']"] l
  have p: "pollNextLoad demo_cfg ?s = ?s\<lparr>pollingTimer := Some (pollingInterval demo_cfg)\<rparr>"
    and a: "foldl (step demo_cfg) (pollNextLoad demo_cfg ?s) (replicate 3 PollingTimer)
          = ?s\<lparr>pollingTimer := Some (pollingInterval demo_cfg)\<rparr>"
    and b: "step demo_cfg (step demo_cfg (pollNextLoad demo_cfg ?s) (SetLoadAddresses [''01-1'', ''01-2''])) PollingTimer
          = (queryLoad demo_cfg ''01-1'' (?s\<lparr>pollingTimer := Some (pollingInterval demo_cfg),
                loadAddresses := [''01-1'', ''01-2''],
                currentPollingIndex := 1 mod length [''01-1'', ''01-2'']\<rparr>))
            \<lparr>pollingTimer := Some (pollingInterval demo_cfg)\<rparr>"
    by blast+
  note b' = b [unfolded p]
  show ?thesis unfolding r r2 a b'
    by (simp add: init_def demo_cfg_def queryLoad_def enqueuePolling_def enqueue_def
        processNext_def processCommand_def)
qed

lemma inv_timers_idle:
  assumes "conn_inv cfg s" "\<not> processing s"
  shows "timers s = (\<lambda>_. None)"
  using inv_idle(2) [OF assms] by auto

text \<open>
  C3. A command whose timeout fires. In every reachable state, if the timer of command \<open>i\<close>
  is armed (the command has been written and has had no reply), then it was armed with
  \<open>commandTimeout\<close> and the handle of \<open>i\<close> is pending; when the timer fires, the handle is
  resolved with null, the pending exchange is cleared, no timer remains, and the queue is idle
  and unchanged. If the queue is not empty, a run of \<open>processNext\<close> is scheduled, and that run
  takes the head of the queue: with the port open it writes it and installs its exchange, with
  the port closed it rejects it. If the queue is empty, the next submission is dispatched at
  once.
\<close>

theorem C3_timeout_resolves_null:
  "let s = run cfg es; s' = step cfg s (CommandTimer i); s'' = step cfg s' Immediate in
     timers s i \<noteq> None \<longrightarrow>
       timers s i = Some (commandTimeout cfg) \<and> handles s i = Pending
       \<and> handles s' i = Resolved None \<and> exchange s' i = Resolved None
       \<and> pendingResponse s' = None \<and> \<not> processing s' \<and> timers s' = (\<lambda>_. None)
       \<and> queue s' = queue s
       \<and> (\<forall>c rest. queue s = c # rest \<longrightarrow>
             immediates s' = Suc (immediates s) \<and> queue s'' = rest
             \<and> (portOpen s \<longrightarrow> wire s'' = c # wire s \<and> processing s''
                   \<and> pendingResponse s''
                       = Some \<lparr>exch = handle c, pending_address = queryMatch (command c)\<rparr>
                   \<and> timers s'' (handle c) = Some (commandTimeout cfg))
             \<and> (\<not> portOpen s \<longrightarrow>
                   handles s'' (handle c) = Rejected (Error ''Serial port not open'')
                   \<and> \<not> processing s''))
       \<and> (queue s = [] \<and> portOpen s \<longrightarrow>
             wire (step cfg s' (Enqueue t p))
               = \<lparr>command = t, priority = p, handle = nextHandle s\<rparr> # wire s)"
proof -
  define s where "s = run cfg es"
  define s' where "s' = step cfg s (CommandTimer i)"
  define s'' where "s'' = step cfg s' Immediate"
  have i: "conn_inv cfg s" unfolding s_def by (rule inv_run)
  have i': "conn_inv cfg s'" unfolding s'_def by (rule inv_step [OF i])
  { assume t: "timers s i \<noteq> None"
    note a = inv_armed [OF i t]
    have "s' = commandTimedOut i s" using t unfolding s'_def by (cases "timers s i") simp_all
    then have s': "s' = s\<lparr>timers := (timers s)(i := None), pendingResponse := None,
       exchange := (exchange s)(i := Resolved None), handles := (handles s)(i := Resolved None),
       processing := False,
       immediates := (if queue s \<noteq> [] then Suc (immediates s) else immediates s)\<rparr>"
      unfolding commandTimedOut_armed [OF i t] .
    have p: "\<not> processing s'" "pendingResponse s' = None" "queue s' = queue s"
      "handles s' i = Resolved None" "exchange s' i = Resolved None"
      "portOpen s' = portOpen s" "wire s' = wire s" "nextHandle s' = nextHandle s"
      unfolding s' by simp_all
    have tn: "timers s' = (\<lambda>_. None)" by (rule inv_timers_idle [OF i' p(1)])
    have q: "immediates s' = Suc (immediates s) \<and> queue s'' = rest
             \<and> (portOpen s \<longrightarrow> wire s'' = c # wire s \<and> processing s''
                   \<and> pendingResponse s''
                       = Some \<lparr>exch = handle c, pending_address = queryMatch (command c)\<rparr>
                   \<and> timers s'' (handle c) = Some (commandTimeout cfg))
             \<and> (\<not> portOpen s \<longrightarrow>
                   handles s'' (handle c) = Rejected (Error ''Serial port not open'')
                   \<and> \<not> processing s'')"
      if c: "queue s = c # rest" for c rest
    proof -
      have im: "immediates s' = Suc (immediates s)" using c unfolding s' by simp
      let ?m = "s'\<lparr>immediates := immediates s' - 1\<rparr>"
      have s'': "s'' = processNext cfg ?m" using im unfolding s''_def by simp
      have im': "conn_inv cfg ?m" by (rule inv_frame [OF i']) simp_all
      have mq: "queue ?m = c # rest" "\<not> processing ?m" using c p by simp_all
      show ?thesis
      proof (cases "portOpen s")
        case True
        then have "portOpen ?m" using p by simp
        from processNext_open [OF mq this, of cfg] True im p show ?thesis
          unfolding s'' by simp
      next
        case False
        then have "\<not> portOpen ?m" using p by simp
        from processNext_closed [OF im' mq this] False im p show ?thesis
          unfolding s'' by simp
      qed
    qed
    have e: "wire (step cfg s' (Enqueue t p))
               = \<lparr>command = t, priority = p, handle = nextHandle s\<rparr> # wire s"
      if "queue s = []" "portOpen s"
      using that p by (simp add: enqueue_insertCmd insertCmd_def processNext_def processCommand_def)
    note a(8) a(4) p(1-5) tn q e }
  then show ?thesis unfolding Let_def s_def [symmetric] s'_def [symmetric] s''_def [symmetric]
    by blast
qed

text \<open>
  A query that is not answered while a set command waits: the timeout resolves the query with
  null, and the next turn writes the set command.
\<close>

theorem C3_witness:
  "timers (run demo_cfg [PortOpened, QueryLoad ''01-1'', SetRelay ''02-1'' True]) 0 = Some 1000
   \<and> handles (run demo_cfg [PortOpened, QueryLoad ''01-1'', SetRelay ''02-1'' True, CommandTimer 0]) 0
       = Resolved None
   \<and> map command (wire (run demo_cfg [PortOpened, QueryLoad ''01-1'', SetRelay ''02-1'' True,
        CommandTimer 0, Immediate])) = ['' 10 02-1 001'', '' 18 01-1'']"
proof -
  let ?es = "[PortOpened, QueryLoad ''01-1'', SetRelay ''02-1'' True]"
  let ?s = "run demo_cfg ?es"
  have r1: "run demo_cfg (?es @ [CommandTimer 0]) = step demo_cfg ?s (CommandTimer 0)"
    and r2: "run demo_cfg (?es @ [CommandTimer 0, Immediate])
        = step demo_cfg (step demo_cfg ?s (CommandTimer 0)) Immediate"
    unfolding run_def foldl_append by simp_all
  have t: "timers ?s 0 = Some 1000" by code_simp
  have q: "queue ?s = [\<lparr>command = '' 10 02-1 001'', priority = HIGH, handle = 1\<rparr>]"
    and w: "wire ?s = [\<lparr>command = '' 18 01-1'', priority = NORMAL, handle = 0\<rparr>]"
    and o: "portOpen ?s" by code_simp+
  from t have t': "timers ?s 0 \<noteq> None" by simp
  from C3_timeout_resolves_null [of demo_cfg ?es 0] t' q o
  have "handles (step demo_cfg ?s (CommandTimer 0)) 0 = Resolved None"
    and "wire (step demo_cfg (step demo_cfg ?s (CommandTimer 0)) Immediate)
          = \<lparr>command = '' 10 02-1 001'', priority = HIGH, handle = 1\<rparr> # wire ?s"
    unfolding Let_def by blast+
  with t w show ?thesis using r1 r2 by simp
qed

lemma queryMatch_set_command: "queryMatch ('' 10 '' @ rest) = None"
proof -
  have "is_space (CHR '' '')" "\<not> is_space (CHR ''1'')" by (simp_all add: is_space_def)
  then show ?thesis by (simp add: queryMatch_def)
qed

text \<open>
  C6, as amended. \<open>close\<close> in any reachable state: the handle of every queued command was
  pending and is rejected with the error ``Queue cleared''; if an exchange is pending, the handle
  of its command was pending and is rejected with the error ``Connection closing'', and its timer
  is cleared; afterwards the queue is empty, no exchange is pending, the polling timer is
  cleared and the port is closed.
\<close>

theorem C6_close_rejects:
  "let s = run cfg es; s' = close s in
     (\<forall>c\<in>set (queue s). handles s (handle c) = Pending
         \<and> handles s' (handle c) = Rejected (Error ''Queue cleared''))
     \<and> (\<forall>p. pendingResponse s = Some p \<longrightarrow>
           handles s (exch p) = Pending
           \<and> handles s' (exch p) = Rejected (Error ''Connection closing'')
           \<and> exchange s' (exch p) = Rejected (Error ''Connection closing'')
           \<and> timers s' = (\<lambda>_. None) \<and> \<not> processing s')
     \<and> length (queue s') = 0 \<and> pendingResponse s' = None \<and> pollingTimer s' = None
     \<and> \<not> portOpen s'"
proof -
  define s where "s = run cfg es"
  define s' where "s' = close s"
  have i: "conn_inv cfg s" unfolding s_def by (rule inv_run)
  have i': "conn_inv cfg s'" unfolding s'_def by (rule inv_close [OF i])
  have g: "length (queue s') = 0 \<and> pendingResponse s' = None \<and> pollingTimer s' = None
     \<and> \<not> portOpen s'"
    unfolding s'_def
    by (simp add: close_def clear_def stopPolling_def Let_def settleExchange_def
        processNext_resume_def split: option.splits)
  have p: "handles s (exch p) = Pending
           \<and> handles s' (exch p) = Rejected (Error ''Connection closing'')
           \<and> exchange s' (exch p) = Rejected (Error ''Connection closing'')
           \<and> timers s' = (\<lambda>_. None) \<and> \<not> processing s'"
    if "pendingResponse s = Some p" for p
  proof -
    note a = inv_armed [OF i inv_pending(1) [OF i that]]
    have s': "s' = (clear (stopPolling s))\<lparr>timers := (timers s)(exch p := None), pendingResponse := None,
       exchange := (exchange s)(exch p := Rejected (Error ''Connection closing'')),
       handles := (handles (clear (stopPolling s)))(exch p := Rejected (Error ''Connection closing'')),
       processing := False, portOpen := False\<rparr>"
      unfolding s'_def by (rule close_pending [OF i that])
    have np: "\<not> processing s'" unfolding s' by simp
    have "timers s' = (\<lambda>_. None)" by (rule inv_timers_idle [OF i' np])
    with a(4) np show ?thesis unfolding s' by simp
  qed
  have q: "handles s (handle c) = Pending \<and> handles s' (handle c) = Rejected (Error ''Queue cleared'')"
    if "c \<in> set (queue s)" for c
  proof -
    note f = inv_queued [OF i that]
    have cl: "handles (clear (stopPolling s)) (handle c) = Rejected (Error ''Queue cleared'')"
      using that f by (simp add: clear_def stopPolling_def rejectAll_apply)
    show ?thesis
    proof (cases "pendingResponse s")
      case None
      then have "s' = (clear (stopPolling s))\<lparr>portOpen := False\<rparr>"
        unfolding s'_def by (simp add: close_def clear_def stopPolling_def)
      with cl f show ?thesis by simp
    next
      case (Some p)
      from inv_armed(7) [OF i inv_pending(1) [OF i Some]] that have "exch p \<noteq> handle c" by auto
      with cl f show ?thesis unfolding s'_def close_pending [OF i Some] by simp
    qed
  qed
  show ?thesis unfolding Let_def s_def [symmetric] s'_def [symmetric]
    by (intro conjI ballI allI impI) (simp_all add: g p q)
qed

text \<open>
  A run with one command in flight and two in the queue: \<open>close\<close> rejects the queued ones
  with ``Queue cleared'' and the one in flight with ``Connection closing''.
\<close>

theorem C6_witness:
  "map (handles (close (run demo_cfg [PortOpened, SetRelay ''01-1'' True, QueryLoad ''01-1'',
        QueryLoad ''01-2'']))) [0, 1, 2]
     = [Rejected (Error ''Connection closing''), Rejected (Error ''Queue cleared''),
        Rejected (Error ''Queue cleared'')]
   \<and> queue (close (run demo_cfg [PortOpened, SetRelay ''01-1'' True, QueryLoad ''01-1'',
        QueryLoad ''01-2''])) = []"
proof -
  let ?es = "[PortOpened, SetRelay ''01-1'' True, QueryLoad ''01-1'', QueryLoad ''01-2'']"
  let ?s = "run demo_cfg ?es"
  have q: "queue ?s = [\<lparr>command = '' 18 01-1'', priority = NORMAL, handle = 1\<rparr>,
        \<lparr>command = '' 18 01-2'', priority = NORMAL, handle = 2\<rparr>]"
    and p: "pendingResponse ?s = Some \<lparr>exch = 0, pending_address = None\<rparr>"
    by code_simp+
  from C6_close_rejects [of demo_cfg ?es] show ?thesis
    unfolding Let_def q p by simp
qed

text \<open>
  C6 as stated fails: the handle of a queued command is rejected with ``Queue cleared'', which
  is not the error ``Connection closing'' that the pending exchange gets.
\<close>

theorem C6_counterexample:
  "queue (run demo_cfg [PortOpened, SetRelay ''01-1'' True, QueryLoad ''01-1''])
     = [\<lparr>command = '' 18 01-1'', priority = NORMAL, handle = 1\<rparr>]
   \<and> handles (close (run demo_cfg [PortOpened, SetRelay ''01-1'' True, QueryLoad ''01-1''])) 1
       = Rejected (Error ''Queue cleared'')
   \<and> handles (close (run demo_cfg [PortOpened, SetRelay ''01-1'' True, QueryLoad ''01-1''])) 1
       \<noteq> Rejected (Error ''Connection closing'')"
proof -
  let ?s = "run demo_cfg [PortOpened, SetRelay ''01-1'' True, QueryLoad ''01-1'']"
  have q: "queue ?s = [\<lparr>command = '' 18 01-1'', priority = NORMAL, handle = 1\<rparr>]"
    by code_simp
  have h: "handles (close ?s) 1 = Rejected (Error ''Queue cleared'')" by code_simp
  from q h show ?thesis by simp
qed

subsection \<open>Rounding to doubles\<close>

lemma ilog2_lower:
  assumes "0 < x"
  shows "2 powi ilog2 x \<le> x"
proof -
  obtain a b where q: "quotient_of x = (a, b)" by (cases "quotient_of x")
  have b: "0 < b" by (rule quotient_of_denom_pos [OF q])
  have x: "x = of_int a / of_int b" by (rule quotient_of_div [OF q])
  have a: "0 < a" using assms b unfolding x by (simp add: zero_less_divide_iff)
  let ?k = "bitlen a - bitlen b"
  show ?thesis
  proof (cases "2 powi ?k \<le> x")
    case True
    then show ?thesis by (simp add: ilog2_def q)
  next
    case False
    have la: "1 \<le> bitlen a" and lb: "1 \<le> bitlen b" using a b by (simp_all add: bitlen_alt_def)
    from bitlen_bounds [OF a] have "(2::int) ^ nat (bitlen a - 1) \<le> a" by simp
    then have "(of_int ((2::int) ^ nat (bitlen a - 1)) :: rat) \<le> of_int a" by (simp only: of_int_le_iff)
    then have A: "(2::rat) powi (bitlen a - 1) \<le> of_int a"
      using la by (simp add: power_int_nonneg_exp)
    from bitlen_bounds [OF b] have "b < (2::int) ^ nat (bitlen b)" by simp
    then have "(of_int b :: rat) < of_int ((2::int) ^ nat (bitlen b))" by (simp only: of_int_less_iff)
    then have B: "(of_int b :: rat) < 2 powi (bitlen b)"
      using lb by (simp add: power_int_nonneg_exp)
    have "(2::rat) powi (?k - 1) = 2 powi (bitlen a - 1) / 2 powi bitlen b"
      by (simp add: power_int_diff [symmetric] algebra_simps)
    also have "\<dots> \<le> of_int a / 2 powi bitlen b"
      using A by (simp add: divide_right_mono)
    also have "\<dots> \<le> of_int a / of_int b"
      using B a b by (intro divide_left_mono) (simp_all add: less_imp_le)
    finally have "(2::rat) powi (?k - 1) \<le> x" unfolding x .
    with False show ?thesis by (simp add: ilog2_def q)
  qed
qed

lemma ilog2_less:
  assumes "0 < x" "x < 2 powi k"
  shows "ilog2 x < k"
proof (rule ccontr)
  assume "\<not> ilog2 x < k"
  then have "k \<le> ilog2 x" by simp
  then have "(2::rat) powi k \<le> 2 powi ilog2 x" by (intro power_int_increasing) simp_all
  with ilog2_lower [OF assms(1)] assms(2) show False by simp
qed

lemma ulp_exp_le:
  assumes "x \<noteq> 0" "\<bar>x\<bar> < 2 powi k" "- 1021 \<le> k"
  shows "ulp_exp x \<le> k - 53"
proof -
  from assms(1) have "0 < \<bar>x\<bar>" by simp
  from ilog2_less [OF this assms(2)] assms(3) show ?thesis by (simp add: ulp_exp_def)
qed

lemma roundTiesToEven_cases:
  "roundTiesToEven z = \<lfloor>z\<rfloor> \<and> z - of_int \<lfloor>z\<rfloor> \<le> 1/2
   \<or> roundTiesToEven z = \<lfloor>z\<rfloor> + 1 \<and> 1/2 \<le> z - of_int \<lfloor>z\<rfloor>"
  by (auto simp: roundTiesToEven_def Let_def)

lemma roundTiesToEven_error: "\<bar>of_int (roundTiesToEven z) - z\<bar> \<le> 1/2"
proof -
  have "of_int \<lfloor>z\<rfloor> \<le> z" "z < of_int \<lfloor>z\<rfloor> + 1" by linarith+
  with roundTiesToEven_cases [of z] show ?thesis by (auto simp: abs_le_iff)
qed

lemma roundTiesToEven_le:
  assumes "z \<le> of_int n"
  shows "roundTiesToEven z \<le> n"
proof (cases "z = of_int n")
  case True
  then show ?thesis by (simp add: roundTiesToEven_def)
next
  case False
  with assms have "z < of_int n" by simp
  then have "\<lfloor>z\<rfloor> < n" by (simp add: floor_less_iff)
  with roundTiesToEven_cases [of z] show ?thesis by auto
qed

lemma roundTiesToEven_ge:
  assumes "of_int n \<le> z"
  shows "n \<le> roundTiesToEven z"
proof -
  from assms have "n \<le> \<lfloor>z\<rfloor>" by (simp add: le_floor_iff)
  with roundTiesToEven_cases [of z] show ?thesis by auto
qed

lemma fl_error:
  "\<bar>fl x - x\<bar> \<le> 2 powi ulp_exp x / 2"
proof (cases "x = 0")
  case True
  then show ?thesis by (simp add: fl_def)
next
  case False
  let ?p = "(2::rat) powi ulp_exp x"
  have p: "0 < ?p" by simp
  have "fl x - x = (of_int (roundTiesToEven (x / ?p)) - x / ?p) * ?p"
    using False p by (simp add: fl_def algebra_simps)
  then have "\<bar>fl x - x\<bar> = \<bar>of_int (roundTiesToEven (x / ?p)) - x / ?p\<bar> * ?p"
    using p by (simp add: abs_mult)
  also have "\<dots> \<le> 1/2 * ?p"
    using p by (intro mult_right_mono roundTiesToEven_error) simp
  finally show ?thesis by simp
qed

lemma int_multiple:
  assumes "q \<le> 0"
  shows "(of_int B :: rat) / 2 powi q = of_int (B * 2 ^ nat (- q))"
proof -
  have "(2::rat) powi q = 1 / 2 powi (- q)" by (simp add: power_int_minus_divide)
  also have "(2::rat) powi (- q) = 2 ^ nat (- q)" using assms by (simp add: power_int_nonneg_exp)
  finally show ?thesis by simp
qed

lemma fl_le:
  assumes "ulp_exp x \<le> 0" "x \<le> of_int B"
  shows "fl x \<le> of_int B"
proof (cases "x = 0")
  case True
  with assms(2) show ?thesis by (simp add: fl_def)
next
  case False
  let ?p = "(2::rat) powi ulp_exp x"
  have p: "0 < ?p" by simp
  have "x / ?p \<le> of_int B / ?p" using assms(2) p by (simp add: divide_right_mono)
  then have "x / ?p \<le> of_int (B * 2 ^ nat (- ulp_exp x))" unfolding int_multiple [OF assms(1)] .
  then have "roundTiesToEven (x / ?p) \<le> B * 2 ^ nat (- ulp_exp x)" by (rule roundTiesToEven_le)
  then have "(of_int (roundTiesToEven (x / ?p)) :: rat) \<le> of_int (B * 2 ^ nat (- ulp_exp x))"
    by (simp only: of_int_le_iff)
  then have "of_int (roundTiesToEven (x / ?p)) * ?p \<le> of_int (B * 2 ^ nat (- ulp_exp x)) * ?p"
    using p by (simp add: mult_right_mono)
  also have "of_int (B * 2 ^ nat (- ulp_exp x)) * ?p = of_int B"
    unfolding int_multiple [OF assms(1), symmetric] using p by simp
  finally show ?thesis using False by (simp add: fl_def)
qed

lemma fl_ge:
  assumes "ulp_exp x \<le> 0" "of_int B \<le> x"
  shows "of_int B \<le> fl x"
proof (cases "x = 0")
  case True
  with assms(2) show ?thesis by (simp add: fl_def)
next
  case False
  let ?p = "(2::rat) powi ulp_exp x"
  have p: "0 < ?p" by simp
  have "of_int B / ?p \<le> x / ?p" using assms(2) p by (simp add: divide_right_mono)
  then have "of_int (B * 2 ^ nat (- ulp_exp x)) \<le> x / ?p" unfolding int_multiple [OF assms(1)] .
  then have "B * 2 ^ nat (- ulp_exp x) \<le> roundTiesToEven (x / ?p)" by (rule roundTiesToEven_ge)
  then have "(of_int (B * 2 ^ nat (- ulp_exp x)) :: rat) \<le> of_int (roundTiesToEven (x / ?p))"
    by (simp only: of_int_le_iff)
  then have le: "of_int (B * 2 ^ nat (- ulp_exp x)) * ?p \<le> of_int (roundTiesToEven (x / ?p)) * ?p"
    using p by (simp add: mult_right_mono)
  have "of_int B = of_int (B * 2 ^ nat (- ulp_exp x)) * ?p"
    unfolding int_multiple [OF assms(1), symmetric] using p by simp
  also note le
  finally show ?thesis using False by (simp add: fl_def)
qed

lemma two_powi_small:
  assumes "q \<le> - 10"
  shows "(2::rat) powi q \<le> 1 / 1024"
proof -
  have "(2::rat) powi q \<le> 2 powi (- 10)" using assms by (intro power_int_increasing) simp_all
  also have "(2::rat) powi (- 10) = 1 / 1024" by (simp add: power_int_minus_divide)
  finally show ?thesis .
qed

lemma fl_close:
  assumes "\<bar>x\<bar> < 2 powi k" "- 1021 \<le> k" "k \<le> 43"
  shows "\<bar>fl x - x\<bar> \<le> 1 / 2048"
proof (cases "x = 0")
  case True
  then show ?thesis by (simp add: fl_def)
next
  case False
  from ulp_exp_le [OF False assms(1,2)] assms(3) have "ulp_exp x \<le> - 10" by simp
  from two_powi_small [OF this] fl_error [of x] show ?thesis by simp
qed

lemma fl_between:
  assumes "\<bar>x\<bar> < 2 powi k" "- 1021 \<le> k" "k \<le> 53" "of_int A \<le> x" "x \<le> of_int B"
  shows "of_int A \<le> fl x \<and> fl x \<le> of_int B"
proof (cases "x = 0")
  case True
  with assms(4,5) show ?thesis by (simp add: fl_def)
next
  case False
  from ulp_exp_le [OF False assms(1,2)] assms(3) have "ulp_exp x \<le> 0" by simp
  from fl_ge [OF this assms(4)] fl_le [OF this assms(5)] show ?thesis by simp
qed

text \<open>The quotient and the product of \<open>levelToRaw\<close> for a clamped level.\<close>

lemma quotient_bounds:
  assumes "0 \<le> c" "c \<le> 100"
  shows "0 \<le> fl (c / 100)" "fl (c / 100) \<le> 1" "\<bar>fl (c / 100) - c / 100\<bar> \<le> 1 / 2048"
proof -
  have a: "\<bar>c / 100\<bar> < 2 powi 1" using assms by simp
  from fl_between [OF a, of 0 1] assms show "0 \<le> fl (c / 100)" "fl (c / 100) \<le> 1" by simp_all
  from fl_close [OF a] show "\<bar>fl (c / 100) - c / 100\<bar> \<le> 1 / 2048" by simp
qed

lemma product_bounds:
  assumes "0 \<le> y" "y \<le> 1"
  shows "0 \<le> fl (y * 250)" "fl (y * 250) \<le> 250" "\<bar>fl (y * 250) - y * 250\<bar> \<le> 1 / 2048"
proof -
  have "y * 250 \<le> 250" using assms by simp
  then have a: "\<bar>y * 250\<bar> < 2 powi 8" using assms by simp
  from fl_between [OF a, of 0 250] assms show "0 \<le> fl (y * 250)" "fl (y * 250) \<le> 250"
    by simp_all
  from fl_close [OF a] show "\<bar>fl (y * 250) - y * 250\<bar> \<le> 1 / 2048" by simp
qed

lemma raw_bounds:
  assumes "0 \<le> c" "c \<le> 100"
  shows "0 \<le> round (fl (fl (c / 100) * 250))" "round (fl (fl (c / 100) * 250)) \<le> 250"
    and "c * 5 / 2 - 5 / 8 \<le> of_int (round (fl (fl (c / 100) * 250)))"
    and "of_int (round (fl (fl (c / 100) * 250))) \<le> c * 5 / 2 + 5 / 8"
proof -
  let ?y = "fl (c / 100)"
  let ?z = "fl (?y * 250)"
  note q = quotient_bounds [OF assms]
  note p = product_bounds [OF q(1,2)]
  have "round (0::rat) \<le> round ?z" by (rule round_mono [OF p(1)])
  then show "0 \<le> round ?z" by simp
  have "round ?z \<le> round (250::rat)" by (rule round_mono [OF p(2)])
  then show "round ?z \<le> 250" by simp
  have r: "?z - 1/2 \<le> of_int (round ?z)" "of_int (round ?z) \<le> ?z + 1/2"
    by (rule of_int_round_ge, rule of_int_round_le)
  from q(3) p(3) r show "c * 5 / 2 - 5 / 8 \<le> of_int (round ?z)"
    and "of_int (round ?z) \<le> c * 5 / 2 + 5 / 8"
    by linarith+
qed

lemma clampLevel_cases:
  "lvl = NaN \<and> clampLevel lvl = NaN \<or> (\<exists>c. clampLevel lvl = Num c \<and> 0 \<le> c \<and> c \<le> 100)"
  by (cases lvl) (simp_all add: clampLevel_def)

lemma clampLevel_idem: "clampLevel (clampLevel lvl) = clampLevel lvl"
  by (cases lvl) (simp_all add: clampLevel_def)

lemma fl_0: "fl 0 = 0"
  by (simp add: fl_def)

lemma fl_1: "fl 1 = 1"
proof -
  have "\<bar>1::rat\<bar> < 2 powi 1" by simp
  from fl_between [OF this, of 1 1] show ?thesis by simp
qed

lemma fl_250: "fl 250 = 250"
proof -
  have "\<bar>250::rat\<bar> < 2 powi 8" by simp
  from fl_between [OF this, of 250 250] show ?thesis by simp
qed

lemma pad3_int:
  assumes "0 \<le> r" "r \<le> 250"
  shows "padStart 3 (CHR ''0'') (toString r)
     = [digit_char (nat r div 100), digit_char (nat r div 10 mod 10), digit_char (nat r mod 10)]"
proof -
  have "nat r < 1000" using assms by linarith
  from pad3 [OF this] assms(1) show ?thesis by (simp add: toString_def)
qed

lemma parseInt_pad3:
  assumes "0 \<le> r" "r \<le> 250"
  shows "parseInt (padStart 3 (CHR ''0'') (toString r)) = r"
proof -
  define n where "n = nat r"
  have n: "n < 1000" "int n = r" using assms unfolding n_def by linarith+
  note b = digit_bounds [OF n(1)]
  have "parseInt (padStart 3 (CHR ''0'') (toString r))
      = 100 * digit_val (digit_char (n div 100)) + 10 * digit_val (digit_char (n div 10 mod 10))
        + digit_val (digit_char (n mod 10))"
    unfolding pad3_int [OF assms] parseInt3 n_def ..
  also have "\<dots> = 100 * int (n div 100) + 10 * int (n div 10 mod 10) + int (n mod 10)"
    unfolding digit_val_digit_char [OF b(1)] digit_val_digit_char [OF b(2)]
      digit_val_digit_char [OF b(3)] ..
  also have "\<dots> = int (100 * (n div 100) + 10 * (n div 10 mod 10) + n mod 10)"
    by (simp only: of_nat_add of_nat_mult of_nat_numeral)
  also have "\<dots> = int n" unfolding three_digits ..
  finally show ?thesis using n(2) by simp
qed

lemma is_digit_pad3:
  assumes "0 \<le> r" "r \<le> 250"
  shows "list_all is_digit (padStart 3 (CHR ''0'') (toString r))"
proof -
  have "nat r < 1000" using assms by linarith
  note b = digit_bounds [OF this]
  show ?thesis unfolding pad3_int [OF assms] by (simp add: is_digit_digit_char b)
qed

lemma levelToRaw_number:
  assumes "lvl \<noteq> NaN"
  shows "\<exists>r. levelToRaw lvl = Some r \<and> 0 \<le> r \<and> r \<le> 250"
proof -
  from clampLevel_cases [of lvl] assms obtain c where
    c: "clampLevel lvl = Num c" "0 \<le> c" "c \<le> 100" by auto
  from raw_bounds(1,2) [OF c(2,3)] c(1) show ?thesis by (simp add: levelToRaw_def)
qed

lemma levelToRaw_low:
  assumes "lvl = NegInf \<or> (\<exists>x. lvl = Num x \<and> x \<le> 0)"
  shows "levelToRaw lvl = Some 0"
proof -
  from assms have "clampLevel lvl = Num 0" by (auto simp: clampLevel_def)
  then show ?thesis by (simp add: levelToRaw_def fl_0)
qed

lemma levelToRaw_high:
  assumes "lvl = PosInf \<or> (\<exists>x. lvl = Num x \<and> 100 \<le> x)"
  shows "levelToRaw lvl = Some 250"
proof -
  from assms have "clampLevel lvl = Num 100" by (auto simp: clampLevel_def)
  then show ?thesis by (simp add: levelToRaw_def fl_1 fl_250)
qed

lemma dimmerValue_000: "levelToRaw lvl = Some 0 \<Longrightarrow> dimmerValue lvl = ''000''"
  using pad3_int [of 0] by (simp add: dimmerValue_def digit_char_0)

lemma dimmerValue_250: "levelToRaw lvl = Some 250 \<Longrightarrow> dimmerValue lvl = ''250''"
  using pad3_int [of 250] by (simp add: dimmerValue_def digit_char_0 digit_char_2 digit_char_5)

text \<open>
  C5, as amended. The encoding of \<open>setDimmer\<close>. For every address and every level,
  \<open>setDimmer\<close> submits at HIGH priority the command \<^verbatim>\<open> 10 <address> <value>\<close>, and the raw
  value of a level is the raw value of the clamped level. For every level other than NaN: the
  clamped level is a number in [0,100]; the raw value is an integer in [0,250]; the value field
  is three decimal digits that read back as the raw value; minus infinity and the levels at or
  below 0 give \<^verbatim>\<open>000\<close>, plus infinity and the levels at or above 100 give \<^verbatim>\<open>250\<close>. The levels
  0, 100 and 50 give \<^verbatim>\<open>000\<close>, \<^verbatim>\<open>250\<close> and \<^verbatim>\<open>125\<close>.
\<close>

theorem C5_setDimmer_encoding:
  "setDimmer cfg addr lvl s = enqueue cfg ('' 10 '' @ addr @ '' '' @ dimmerValue lvl) HIGH s
   \<and> levelToRaw lvl = levelToRaw (clampLevel lvl)
   \<and> (lvl \<noteq> NaN \<longrightarrow>
        (\<exists>c. clampLevel lvl = Num c \<and> 0 \<le> c \<and> c \<le> 100)
        \<and> (\<exists>r. levelToRaw lvl = Some r \<and> 0 \<le> r \<and> r \<le> 250
              \<and> length (dimmerValue lvl) = 3 \<and> list_all is_digit (dimmerValue lvl)
              \<and> parseInt (dimmerValue lvl) = r))
   \<and> (lvl = NegInf \<or> (\<exists>x. lvl = Num x \<and> x \<le> 0) \<longrightarrow> dimmerValue lvl = ''000'')
   \<and> (lvl = PosInf \<or> (\<exists>x. lvl = Num x \<and> 100 \<le> x) \<longrightarrow> dimmerValue lvl = ''250'')
   \<and> dimmerValue (Num 0) = ''000'' \<and> dimmerValue (Num 100) = ''250''
   \<and> dimmerValue (Num 50) = ''125''"
proof -
  have a: "setDimmer cfg addr lvl s = enqueue cfg ('' 10 '' @ addr @ '' '' @ dimmerValue lvl) HIGH s"
    by (simp add: setDimmer_def enqueueHighPriority_def)
  have b: "levelToRaw lvl = levelToRaw (clampLevel lvl)"
    by (simp add: levelToRaw_def clampLevel_idem)
  have c: "(\<exists>c. clampLevel lvl = Num c \<and> 0 \<le> c \<and> c \<le> 100)
        \<and> (\<exists>r. levelToRaw lvl = Some r \<and> 0 \<le> r \<and> r \<le> 250
              \<and> length (dimmerValue lvl) = 3 \<and> list_all is_digit (dimmerValue lvl)
              \<and> parseInt (dimmerValue lvl) = r)" if n: "lvl \<noteq> NaN"
  proof
    from clampLevel_cases [of lvl] n show "\<exists>c. clampLevel lvl = Num c \<and> 0 \<le> c \<and> c \<le> 100"
      by auto
    from levelToRaw_number [OF n] obtain r where r: "levelToRaw lvl = Some r" "0 \<le> r" "r \<le> 250"
      by blast
    have d: "dimmerValue lvl = padStart 3 (CHR ''0'') (toString r)"
      using r(1) by (simp add: dimmerValue_def)
    have "length (dimmerValue lvl) = 3" unfolding d pad3_int [OF r(2,3)] by simp
    moreover have "list_all is_digit (dimmerValue lvl)" unfolding d by (rule is_digit_pad3 [OF r(2,3)])
    moreover have "parseInt (dimmerValue lvl) = r" unfolding d by (rule parseInt_pad3 [OF r(2,3)])
    ultimately show "\<exists>r. levelToRaw lvl = Some r \<and> 0 \<le> r \<and> r \<le> 250
              \<and> length (dimmerValue lvl) = 3 \<and> list_all is_digit (dimmerValue lvl)
              \<and> parseInt (dimmerValue lvl) = r"
      using r by blast
  qed
  have lo: "dimmerValue lvl = ''000''" if "lvl = NegInf \<or> (\<exists>x. lvl = Num x \<and> x \<le> 0)"
    by (rule dimmerValue_000 [OF levelToRaw_low [OF that]])
  have hi: "dimmerValue lvl = ''250''" if "lvl = PosInf \<or> (\<exists>x. lvl = Num x \<and> 100 \<le> x)"
    by (rule dimmerValue_250 [OF levelToRaw_high [OF that]])
  have e0: "dimmerValue (Num 0) = ''000''"
    by (rule dimmerValue_000 [OF levelToRaw_low]) simp
  have e100: "dimmerValue (Num 100) = ''250''"
    by (rule dimmerValue_250 [OF levelToRaw_high]) simp
  have e50: "dimmerValue (Num 50) = ''125''" by code_simp
  from a b c lo hi e0 e100 e50 show ?thesis by blast
qed

text \<open>
  Levels below and above the range, and the double nearest to 99.8: its quotient by 100,
  rounded, times 250 is the double 249.5, which \<open>Math.round\<close> takes to 250.
\<close>

theorem C5_witness:
  "dimmerValue (Num (- 5)) = ''000'' \<and> dimmerValue PosInf = ''250''
   \<and> levelToRaw (Num (7022800668930867 / 70368744177664)) = Some 250
   \<and> parseInt (dimmerValue (Num (7022800668930867 / 70368744177664))) = 250"
proof -
  let ?x = "Num (7022800668930867 / 70368744177664)"
  have r: "levelToRaw ?x = Some 250" by code_simp
  from C5_setDimmer_encoding [of demo_cfg "''01-1''" "Num (- 5)" init]
  have a: "dimmerValue (Num (- 5)) = ''000''" by simp
  from C5_setDimmer_encoding [of demo_cfg "''01-1''" PosInf init]
  have b: "dimmerValue PosInf = ''250''" by simp
  from C5_setDimmer_encoding [of demo_cfg "''01-1''" ?x init] r
  have c: "parseInt (dimmerValue ?x) = 250" by auto
  from a b c r show ?thesis by simp
qed

text \<open>
  C5 as stated fails for NaN: nothing is clamped, there is no raw value, and the value field is
  \<^verbatim>\<open>NaN\<close>, which is not a number of three digits.
\<close>

theorem C5_counterexample:
  "clampLevel NaN = NaN \<and> levelToRaw NaN = None \<and> dimmerValue NaN = ''NaN''
   \<and> \<not> list_all is_digit (dimmerValue NaN)
   \<and> setDimmer demo_cfg ''01-1'' NaN (init\<lparr>portOpen := True\<rparr>)
       = enqueue demo_cfg '' 10 01-1 NaN'' HIGH (init\<lparr>portOpen := True\<rparr>)"
proof -
  have a: "clampLevel NaN = NaN" "levelToRaw NaN = None"
    by (simp_all add: clampLevel_def levelToRaw_def)
  have b: "dimmerValue NaN = ''NaN''" by (simp add: dimmerValue_def a padStart_def)
  have c: "\<not> list_all is_digit ''NaN''" by (simp add: is_digit_def)
  from a b c show ?thesis by (simp add: setDimmer_def enqueueHighPriority_def)
qed

lemma raw_bounds_real:
  assumes "0 \<le> c" "c \<le> 100"
  shows "real_of_rat c * 5 / 2 - 5 / 8 \<le> real_of_int (round (fl (fl (c / 100) * 250)))"
    and "real_of_int (round (fl (fl (c / 100) * 250))) \<le> real_of_rat c * 5 / 2 + 5 / 8"
proof -
  let ?r = "round (fl (fl (c / 100) * 250))"
  from raw_bounds(3) [OF assms]
  have "real_of_rat (c * 5 / 2 - 5 / 8) \<le> real_of_rat (of_int ?r)" by (simp only: of_rat_less_eq)
  then show "real_of_rat c * 5 / 2 - 5 / 8 \<le> real_of_int ?r"
    by (simp add: of_rat_diff of_rat_divide of_rat_mult)
  from raw_bounds(4) [OF assms]
  have "real_of_rat (of_int ?r) \<le> real_of_rat (c * 5 / 2 + 5 / 8)" by (simp only: of_rat_less_eq)
  then show "real_of_int ?r \<le> real_of_rat c * 5 / 2 + 5 / 8"
    by (simp add: of_rat_add of_rat_divide of_rat_mult)
qed

lemma levelToRaw_in_range:
  assumes "0 \<le> c" "c \<le> 100"
  shows "levelToRaw (Num c) = Some (round (fl (fl (c / 100) * 250)))"
  using assms by (simp add: levelToRaw_def clampLevel_def)

lemma round_trip:
  assumes "0 \<le> c" "c \<le> 100" "levelToRaw (Num c) = Some r" "r \<noteq> 1"
  shows "\<bar>real_of_int (rawToLevel r) - real_of_rat c\<bar> < 1"
proof -
  have r: "r = round (fl (fl (c / 100) * 250))"
    using assms(3) unfolding levelToRaw_in_range [OF assms(1,2)] by simp
  define x where "x = real_of_rat c"
  note b = raw_bounds_real [OF assms(1,2), folded r x_def]
  have r0: "0 \<le> r" using raw_bounds(1) [OF assms(1,2)] unfolding r .
  have c0: "0 \<le> x" using assms(1) by (simp add: x_def)
  have "\<bar>real_of_int (rawToLevel r) - x\<bar> < 1"
  proof (cases "2 \<le> r")
    case True
    note d = rawToLevel_bounds [OF True]
    from b d show ?thesis by linarith
  next
    case False
    with r0 assms(4) have "r = 0" by linarith
    with b c0 show ?thesis by (simp add: rawToLevel_def)
  qed
  then show ?thesis unfolding x_def .
qed

lemma round_trip_int:
  assumes "0 \<le> n" "n \<le> 100"
  shows "\<exists>r. levelToRaw (Num (of_int n)) = Some r \<and> r \<noteq> 1 \<and> rawToLevel r = n"
proof -
  let ?c = "rat_of_int n"
  have c: "0 \<le> ?c" "?c \<le> 100" using assms by simp_all
  define r where "r = round (fl (fl (?c / 100) * 250))"
  have l: "levelToRaw (Num ?c) = Some r" unfolding r_def by (rule levelToRaw_in_range [OF c])
  have n1: "r \<noteq> 1"
  proof (cases "n = 0")
    case True
    then show ?thesis unfolding r_def by (simp add: fl_0)
  next
    case False
    with assms have "1 \<le> real_of_int n" by simp
    with raw_bounds_real(1) [OF c, folded r_def] have "15 / 8 \<le> real_of_int r" by simp
    then have "1 < real_of_int r" by linarith
    then show ?thesis by simp
  qed
  from round_trip [OF c l n1]
  have "\<bar>real_of_int (rawToLevel r - n)\<bar> < 1" by simp
  then have "\<bar>rawToLevel r - n\<bar> < 1" by linarith
  then have "rawToLevel r = n" by simp
  with l n1 show ?thesis by blast
qed

text \<open>
  C8, as amended. The round trip level, raw value, level. For every level in [0,100] whose
  raw value is not 1, the decoded level is less than one percentage point away from the level;
  every integer level in [0,100] has a raw value other than 1 and is decoded to itself.
\<close>

theorem C8_round_trip:
  "(0 \<le> lvl \<and> lvl \<le> 100 \<and> levelToRaw (Num lvl) = Some r \<and> r \<noteq> 1 \<longrightarrow>
      \<bar>real_of_int (rawToLevel r) - real_of_rat lvl\<bar> < 1)
   \<and> (0 \<le> n \<and> n \<le> 100 \<longrightarrow>
        (\<exists>r. levelToRaw (Num (of_int n)) = Some r \<and> r \<noteq> 1 \<and> rawToLevel r = n))"
  using round_trip [of lvl r] round_trip_int [of n] by blast

text \<open>
  The level 37.5, the integer level 37, and the double nearest to 0.6, whose raw value is 2.
\<close>

theorem C8_witness:
  "levelToRaw (Num (75 / 2)) = Some 94
   \<and> \<bar>real_of_int (rawToLevel 94) - real_of_rat (75 / 2)\<bar> < 1
   \<and> levelToRaw (Num 37) = Some 93 \<and> rawToLevel 93 = 37
   \<and> levelToRaw (Num (5404319552844595 / 9007199254740992)) = Some 2
   \<and> \<bar>real_of_int (rawToLevel 2) - real_of_rat (5404319552844595 / 9007199254740992)\<bar> < 1"
proof -
  have a: "levelToRaw (Num (75 / 2)) = Some 94" by code_simp
  have b: "levelToRaw (Num 37) = Some 93" by code_simp
  have c: "levelToRaw (Num (5404319552844595 / 9007199254740992)) = Some 2" by code_simp
  from C8_round_trip [of "75 / 2" 94] a
  have a': "\<bar>real_of_int (rawToLevel 94) - real_of_rat (75 / 2)\<bar> < 1" by simp
  from C8_round_trip [of _ _ 37] b have b': "rawToLevel 93 = 37" by simp
  from C8_round_trip [of "5404319552844595 / 9007199254740992" 2] c
  have c': "\<bar>real_of_int (rawToLevel 2) - real_of_rat (5404319552844595 / 9007199254740992)\<bar> < 1"
    by simp
  from a a' b b' c c' show ?thesis by blast
qed

text \<open>
  C8 as stated fails: the level 0.5 lies in [0,100], its raw value is 1, and the decoder reads
  raw 1 as a relay that is on, level 100. The same happens at the double just below 0.2.
\<close>

theorem C8_counterexample:
  "(0::rat) \<le> 1 / 2 \<and> (1 / 2 :: rat) \<le> 100 \<and> levelToRaw (Num (1 / 2)) = Some 1
   \<and> rawToLevel 1 = 100
   \<and> \<not> \<bar>real_of_int (rawToLevel 1) - real_of_rat (1 / 2)\<bar> \<le> 1
   \<and> levelToRaw (Num (7205759403792793 / 36028797018963968)) = Some 1"
proof -
  have a: "levelToRaw (Num (1 / 2)) = Some 1" by code_simp
  have b: "levelToRaw (Num (7205759403792793 / 36028797018963968)) = Some 1" by code_simp
  have c: "rawToLevel 1 = 100" by (simp add: rawToLevel_def)
  from a b c show ?thesis by (simp add: of_rat_divide)
qed

text \<open>
  Status events in every reachable state \<open>s\<close>: every status emitted so far carries the
  address that the query grammar captured from a command written to the port. A set command
  does not match the query grammar, and a turn that writes a command which does not match
  installs a pending exchange without address. While the pending exchange has no address, an
  arriving line resolves the handle of the command with the trimmed line, clears the exchange
  and emits nothing. While no exchange is pending, an arriving line changes nothing. So while
  the command written last is not a query, no arriving line emits a status.
\<close>

lemma status_only_for_correlated_queries:
  "let s = run cfg es; s' = step cfg s e; r = step cfg s (Data d) in
     (\<forall>st\<in>set (emitted s). \<exists>c\<in>set (wire s). queryMatch (command c) = Some (address st))
     \<and> queryMatch ('' 10 '' @ a @ '' '' @ v) = None
     \<and> (\<forall>c. wire s' = c # wire s \<and> queryMatch (command c) = None \<longrightarrow>
           pendingResponse s' = Some \<lparr>exch = handle c, pending_address = None\<rparr>
           \<and> emitted s' = emitted s)
     \<and> (\<forall>p. pendingResponse s = Some p \<and> pending_address p = None \<longrightarrow>
           handles s (exch p) = Pending
           \<and> handles r (exch p) = Resolved (Some (trim d))
           \<and> pendingResponse r = None \<and> emitted r = emitted s)
     \<and> (pendingResponse s = None \<longrightarrow> r = s)
     \<and> (wire s \<noteq> [] \<and> queryMatch (command (hd (wire s))) = None \<longrightarrow> emitted r = emitted s)"
proof -
  define s where "s = run cfg es"
  define s' where "s' = step cfg s e"
  define r where "r = step cfg s (Data d)"
  have i: "conn_inv cfg s" unfolding s_def by (rule inv_run)
  have a: "\<forall>st\<in>set (emitted s). \<exists>c\<in>set (wire s). queryMatch (command c) = Some (address st)"
    using inv_emitted [OF i] by blast
  have b: "queryMatch ('' 10 '' @ a @ '' '' @ v) = None" by (rule queryMatch_set_command)
  have c: "pendingResponse s' = Some \<lparr>exch = handle c, pending_address = None\<rparr>
           \<and> emitted s' = emitted s"
    if "wire s' = c # wire s" "queryMatch (command c) = None" for c
  proof -
    from step_shape [OF i, of e] that(1) obtain c' where "dispatches s s' c'"
      unfolding s'_def by auto
    with that show ?thesis unfolding dispatches_def by simp
  qed
  have rr: "r = handleResponse d s" unfolding r_def by simp
  have p: "handles s (exch p) = Pending
           \<and> handles r (exch p) = Resolved (Some (trim d))
           \<and> pendingResponse r = None \<and> emitted r = emitted s"
    if "pendingResponse s = Some p" "pending_address p = None" for p
  proof -
    have n: "parseStatusResponse (trim d) None = None"
      by (simp add: parseStatusResponse_def split: option.splits)
    from inv_armed(4) [OF i inv_pending(1) [OF i that(1)]] that(2) n show ?thesis
      unfolding rr handleResponse_pending [OF i that(1)] by simp
  qed
  have q: "r = s" if "pendingResponse s = None"
    unfolding rr by (rule handleResponse_idle [OF that])
  have n: "emitted r = emitted s" if "queryMatch (command (hd (wire s))) = None"
  proof (cases "pendingResponse s")
    case None
    then show ?thesis by (simp add: q)
  next
    case (Some x)
    with inv_pending(2) [OF i Some] that show ?thesis by (simp add: p)
  qed
  show ?thesis
    unfolding Let_def s_def [symmetric] s'_def [symmetric] r_def [symmetric]
    by (intro conjI allI impI; (elim conjE)?; (rule b)?) (simp_all add: a c p q n)
qed


end
